theory Spec2Isabelle
  imports Main
begin

section \<open>Data model\<close>

text \<open>
  Pointers are addresses; address \<open>0\<close> is \<open>nullptr\<close>. A \<open>std::type_index\<close> is a
  natural number: equal for two events of the same concrete type, distinct otherwise.
\<close>

type_synonym addr = nat
type_synonym type_index = nat

text \<open>
  Modelled from the spec: \<open>RoutedEvent.h\<close> is not part of the sources. An event carries
  its run-time type identity (\<open>typeid(e)\<close>, the key of its own class), the keys of the
  classes that its class is derived from, and some payload.
\<close>

record RoutedEvent =
  etype :: type_index
  bases :: "type_index list"
  payload :: int

text \<open>
  When \<open>dynamic_cast<T&>(e)\<close> succeeds: the event is of class \<open>T\<close> or of a class
  derived from \<open>T\<close>.
\<close>

definition is_a :: "RoutedEvent \<Rightarrow> type_index \<Rightarrow> bool" where
  "is_a e T \<longleftrightarrow> etype e = T \<or> T \<in> set (bases e)"

text \<open>
  What can go wrong in the C++ code: a failed \<open>dynamic_cast\<close> to a reference
  (\<open>std::bad_cast\<close>), a dereference of a pointer to no live object, and the use of a
  \<open>std::list\<close> iterator whose node has been erased.
\<close>

datatype error = BadCast | InvalidPointer | InvalidIterator

text \<open>The private class \<open>EventBus::EventRegistration\<close> with its four fields.\<close>

record EventRegistration =
  handler :: addr
  registrations :: addr
  sender :: addr
  registered :: bool

text \<open>
  Modelled from the spec: \<open>EventHandler.h\<close> is not part of the sources. A handler object
  is parameterised by one concrete event type (\<open>htype\<close>); its \<open>onEvent\<close> is user code,
  of which the model keeps what it does to the bus: the registration handles on which it
  calls \<open>removeHandler\<close>, in order.
\<close>

record EventHandler =
  htype :: type_index
  onEvent :: "RoutedEvent \<Rightarrow> addr list"

text \<open>
  Modelled from the spec: \<open>HandlerCollectionMap.h\<close> is not part of the sources. A
  subscription descriptor is a type key and two erased callbacks; the dispatch callback
  yields the user callbacks it invoked (a user callback \<open>std::function<void(TEvent&)>\<close>
  is identified by a number), the predicate callback yields a truth value, and both may
  throw.
\<close>

record SubscriptionDescriptor =
  dtype :: type_index
  dhandler :: "RoutedEvent \<Rightarrow> error + nat list"
  dpredicate :: "RoutedEvent \<Rightarrow> error + bool"

text \<open>
  Modelled from the spec: the collection map keeps its descriptors in insertion order, each
  under the identifier of the subscription handle that was returned for it.
\<close>

record HandlerCollectionMap =
  entries :: "(nat \<times> SubscriptionDescriptor) list"
  next_id :: nat

text \<open>
  The bus together with the heap objects it allocates with \<open>new\<close>: the member
  \<open>handlers\<close> (a \<open>TypeMap\<close> from type index to a possibly null \<open>Registrations*\<close>),
  the member \<open>_collectionMap\<close>, the \<open>std::list<EventRegistration*>\<close> objects (a list
  of nodes, each a node address and the stored pointer), the \<open>EventRegistration\<close> objects,
  and the next free address. The source never deletes anything, so every \<open>new\<close> yields
  an address different from all earlier ones. The member \<open>_map\<close> is never accessed and
  is left out.
\<close>

record EventBus =
  handlers :: "type_index \<rightharpoonup> addr"
  collectionMap :: HandlerCollectionMap
  lists :: "addr \<rightharpoonup> (addr \<times> addr) list"
  regs :: "addr \<rightharpoonup> EventRegistration"
  brk :: addr

definition EventBus_init :: EventBus where
  "EventBus_init =
     \<lparr>handlers = Map.empty, collectionMap = \<lparr>entries = [], next_id = 0\<rparr>,
      lists = Map.empty, regs = Map.empty, brk = 1\<rparr>"

section \<open>Typed registry\<close>

text \<open>
  \<open>this->handlers[typeid(T)]\<close>: \<open>operator[]\<close> of \<open>std::unordered_map\<close> inserts a
  value-initialised (null) pointer under a key that is absent, and returns the stored value.
\<close>

definition handlers_index :: "type_index \<Rightarrow> EventBus \<Rightarrow> addr \<times> EventBus" where
  "handlers_index k s =
     (case handlers s k of
        None \<Rightarrow> (0, s\<lparr>handlers := (handlers s)(k \<mapsto> 0)\<rparr>)
      | Some p \<Rightarrow> (p, s))"

text \<open>
  The body shared by both overloads of \<open>AddHandler\<close>: \<open>sv\<close> is the third
  argument passed to the constructor of \<open>EventRegistration\<close>.
\<close>

definition AddHandler_body ::
  "type_index \<Rightarrow> addr \<Rightarrow> addr \<Rightarrow> EventBus \<Rightarrow> error + (addr \<times> EventBus)" where
  "AddHandler_body T h sv s =
     (case handlers_index T s of (p0, s1) \<Rightarrow>
        (case (if p0 = 0
               then (brk s1, s1\<lparr>lists := (lists s1)(brk s1 \<mapsto> []),
                                 handlers := (handlers s1)(T \<mapsto> brk s1),
                                 brk := Suc (brk s1)\<rparr>)
               else (p0, s1)) of (p, s2) \<Rightarrow>
           (case lists s2 p of
              None \<Rightarrow> Inl InvalidPointer
            | Some l \<Rightarrow>
                Inr (brk s2,
                     s2\<lparr>regs := (regs s2)(brk s2 \<mapsto>
                                   \<lparr>handler = h, registrations = p, sender = sv,
                                    registered = True\<rparr>),
                         lists := (lists s2)(p \<mapsto> l @ [(Suc (brk s2), brk s2)]),
                         brk := Suc (Suc (brk s2))\<rparr>))))"

text \<open>
  \<open>AddHandler(handler, sender)\<close>: the source passes \<open>&sender\<close> to the constructor, the
  address of the by-value parameter \<open>sender\<close> (here \<open>sender_slot\<close>, a location in the
  frame of the call), not the pointer the caller supplied.
\<close>

definition AddHandler_sender ::
  "type_index \<Rightarrow> addr \<Rightarrow> addr \<Rightarrow> addr \<Rightarrow> EventBus \<Rightarrow> error + (addr \<times> EventBus)" where
  "AddHandler_sender T h sender_arg sender_slot s = AddHandler_body T h sender_slot s"

text \<open>\<open>AddHandler(handler)\<close>: the constructor gets \<open>nullptr\<close> as sender.\<close>

definition AddHandler :: "type_index \<Rightarrow> addr \<Rightarrow> EventBus \<Rightarrow> error + (addr \<times> EventBus)" where
  "AddHandler T h s = AddHandler_body T h 0 s"

text \<open>\<open>getHandler\<close> and \<open>getSender\<close> of the registration at address \<open>r\<close>.\<close>

definition getHandler :: "addr \<Rightarrow> EventBus \<Rightarrow> error + addr" where
  "getHandler r s = (case regs s r of None \<Rightarrow> Inl InvalidPointer | Some reg \<Rightarrow> Inr (handler reg))"

definition getSender :: "addr \<Rightarrow> EventBus \<Rightarrow> error + addr" where
  "getSender r s = (case regs s r of None \<Rightarrow> Inl InvalidPointer | Some reg \<Rightarrow> Inr (sender reg))"

text \<open>
  \<open>removeHandler\<close> on the registration at address \<open>r\<close>; \<open>std::list::remove\<close> erases
  every node that holds the given value.
\<close>

definition removeHandler :: "addr \<Rightarrow> EventBus \<Rightarrow> error + EventBus" where
  "removeHandler r s =
     (case regs s r of
        None \<Rightarrow> Inl InvalidPointer
      | Some reg \<Rightarrow>
          if registered reg
          then (case lists s (registrations reg) of
                  None \<Rightarrow> Inl InvalidPointer
                | Some l \<Rightarrow>
                    Inr (s\<lparr>lists := (lists s)(registrations reg \<mapsto> filter (\<lambda>x. snd x \<noteq> r) l),
                           regs := (regs s)(r \<mapsto> reg\<lparr>registered := False\<rparr>)\<rparr>))
          else Inr s)"

text \<open>The calls of \<open>removeHandler\<close> that the body of a handler makes, one after the other.\<close>

fun revoke_all :: "addr list \<Rightarrow> EventBus \<Rightarrow> error + EventBus" where
  "revoke_all [] s = Inr s"
| "revoke_all (r # rs) s =
     (case removeHandler r s of Inl x \<Rightarrow> Inl x | Inr s' \<Rightarrow> revoke_all rs s')"

text \<open>
  Modelled from the spec: \<open>EventHandler<T>::dispatch\<close> (in \<open>EventHandler.h\<close>, not part
  of the sources) performs a checked downcast of the event to the declared type of the
  handler and then runs the handler's \<open>onEvent\<close>. \<open>H\<close> holds the handler objects, which
  the callers of the bus own.
\<close>

definition dispatch ::
  "(addr \<rightharpoonup> EventHandler) \<Rightarrow> addr \<Rightarrow> RoutedEvent \<Rightarrow> EventBus \<Rightarrow> error + EventBus" where
  "dispatch H h e s =
     (case H h of
        None \<Rightarrow> Inl InvalidPointer
      | Some ho \<Rightarrow> if htype ho = etype e then revoke_all (onEvent ho e) s else Inl BadCast)"

text \<open>
  Dispatching the event to the handlers \<open>hs\<close>, one after the other: what a pass that
  invokes these handlers in this order does to the bus.
\<close>

fun dispatch_all ::
  "(addr \<rightharpoonup> EventHandler) \<Rightarrow> RoutedEvent \<Rightarrow> addr list \<Rightarrow> EventBus \<Rightarrow> error + EventBus" where
  "dispatch_all H e [] s = Inr s"
| "dispatch_all H e (h # hs) s =
     (case dispatch H h e s of Inl x \<Rightarrow> Inl x | Inr s' \<Rightarrow> dispatch_all H e hs s')"

text \<open>
  Iterators of a \<open>std::list\<close>: \<open>None\<close> is \<open>end()\<close>, \<open>Some n\<close> points to the node at
  address \<open>n\<close>. Reading through an iterator and incrementing it need the node to be in
  the list still.
\<close>

definition list_begin :: "(addr \<times> addr) list \<Rightarrow> addr option" where
  "list_begin l = (case l of [] \<Rightarrow> None | x # _ \<Rightarrow> Some (fst x))"

fun node_value :: "addr \<Rightarrow> (addr \<times> addr) list \<Rightarrow> addr option" where
  "node_value n [] = None"
| "node_value n (x # xs) = (if fst x = n then Some (snd x) else node_value n xs)"

fun node_next :: "addr \<Rightarrow> (addr \<times> addr) list \<Rightarrow> addr option option" where
  "node_next n [] = None"
| "node_next n (x # xs) = (if fst x = n then Some (list_begin xs) else node_next n xs)"

text \<open>
  One round of the range-based \<open>for\<close> loop of \<open>FireEvent\<close> over the live list at
  \<open>p\<close>, with the iterator at node \<open>n\<close>: \<open>reg = *it\<close>, the call
  \<open>reg->getHandler()->dispatch(e)\<close>, then \<open>++it\<close> on the list as the handler left it.
  It yields the registration dispatched through with its handler, the next iterator and
  the next state.
\<close>

definition fire_step ::
  "(addr \<rightharpoonup> EventHandler) \<Rightarrow> RoutedEvent \<Rightarrow> addr \<Rightarrow> addr \<Rightarrow> EventBus \<Rightarrow>
   error + (addr \<times> addr) \<times> addr option \<times> EventBus" where
  "fire_step H e p n s =
     (case lists s p of
        None \<Rightarrow> Inl InvalidPointer
      | Some l \<Rightarrow>
          (case node_value n l of
             None \<Rightarrow> Inl InvalidIterator
           | Some r \<Rightarrow>
               (case getHandler r s of
                  Inl x \<Rightarrow> Inl x
                | Inr h \<Rightarrow>
                    (case dispatch H h e s of
                       Inl x \<Rightarrow> Inl x
                     | Inr s' \<Rightarrow>
                         (case lists s' p of
                            None \<Rightarrow> Inl InvalidPointer
                          | Some l' \<Rightarrow>
                              (case node_next n l' of
                                 None \<Rightarrow> Inl InvalidIterator
                               | Some it' \<Rightarrow> Inr ((r, h), it', s')))))))"

text \<open>
  The loop, from the iterator \<open>it\<close>; \<open>acc\<close> collects the registrations dispatched
  through, each with its handler.
\<close>

partial_function (option) fire_loop ::
  "(addr \<rightharpoonup> EventHandler) \<Rightarrow> RoutedEvent \<Rightarrow> addr \<Rightarrow> addr option \<Rightarrow> (addr \<times> addr) list \<Rightarrow>
   EventBus \<Rightarrow> (error + (addr \<times> addr) list \<times> EventBus) option" where
  "fire_loop H e p it acc s =
     (case it of
        None \<Rightarrow> Some (Inr (acc, s))
      | Some n \<Rightarrow>
          (case fire_step H e p n s of
             Inl x \<Rightarrow> Some (Inl x)
           | Inr d \<Rightarrow> fire_loop H e p (fst (snd d)) (acc @ [fst d]) (snd (snd d))))"

text \<open>
  \<open>FireEvent(e)\<close>: the lookup with \<open>operator[]\<close>, the return on a null pointer, and
  the loop from \<open>begin()\<close>. The result is \<open>None\<close> when the loop does not return;
  otherwise it is the error, or the registrations dispatched through, in order, each with
  its handler, and the bus as the call leaves it.
\<close>

definition FireEvent ::
  "(addr \<rightharpoonup> EventHandler) \<Rightarrow> RoutedEvent \<Rightarrow> EventBus \<Rightarrow>
   (error + (addr \<times> addr) list \<times> EventBus) option" where
  "FireEvent H e s =
     (case handlers_index (etype e) s of (p, s1) \<Rightarrow>
        if p = 0 then Some (Inr ([], s1))
        else (case lists s1 p of
                None \<Rightarrow> Some (Inl InvalidPointer)
              | Some l \<Rightarrow> fire_loop H e p (list_begin l) [] s1))"

section \<open>Descriptor subscriptions\<close>

text \<open>
  Modelled from the spec: \<open>HandlerCollectionMap::Add\<close> (in \<open>HandlerCollectionMap.h\<close>,
  not part of the sources) accepts a descriptor and returns a cancellable subscription
  handle, here the identifier under which the descriptor is stored.
\<close>

definition CollectionMap_Add ::
  "SubscriptionDescriptor \<Rightarrow> HandlerCollectionMap \<Rightarrow> nat \<times> HandlerCollectionMap" where
  "CollectionMap_Add d cm =
     (next_id cm, cm\<lparr>entries := entries cm @ [(next_id cm, d)], next_id := Suc (next_id cm)\<rparr>)"

text \<open>
  Modelled from the spec: cancelling a subscription handle (\<open>EventSubscription\<close>, not
  part of the sources) takes its descriptor out of the collection map.
\<close>

definition CollectionMap_Cancel :: "nat \<Rightarrow> HandlerCollectionMap \<Rightarrow> HandlerCollectionMap" where
  "CollectionMap_Cancel k cm = cm\<lparr>entries := filter (\<lambda>x. fst x \<noteq> k) (entries cm)\<rparr>"

text \<open>
  Modelled from the spec: \<open>HandlerCollectionMap::Dispatch\<close> (not part of the sources)
  invokes the dispatch callback of every stored entry for the type key of the event whose
  predicate callback returns true, in insertion order. The result lists the user callbacks
  that were invoked, each with the identifier of its subscription.
\<close>

fun dispatch_entries ::
  "RoutedEvent \<Rightarrow> (nat \<times> SubscriptionDescriptor) list \<Rightarrow> error + (nat \<times> nat) list" where
  "dispatch_entries e [] = Inr []"
| "dispatch_entries e (x # xs) =
     (if dtype (snd x) = etype e
      then (case dpredicate (snd x) e of
              Inl err \<Rightarrow> Inl err
            | Inr b \<Rightarrow>
                if b
                then (case dhandler (snd x) e of
                        Inl err \<Rightarrow> Inl err
                      | Inr cs \<Rightarrow>
                          (case dispatch_entries e xs of
                             Inl err \<Rightarrow> Inl err
                           | Inr rest \<Rightarrow> Inr (map (Pair (fst x)) cs @ rest)))
                else dispatch_entries e xs)
      else dispatch_entries e xs)"

definition CollectionMap_Dispatch ::
  "RoutedEvent \<Rightarrow> HandlerCollectionMap \<Rightarrow> error + (nat \<times> nat) list" where
  "CollectionMap_Dispatch e cm = dispatch_entries e (entries cm)"

text \<open>\<open>EventBus::Add\<close> forwards to the collection map.\<close>

definition Add :: "SubscriptionDescriptor \<Rightarrow> EventBus \<Rightarrow> nat \<times> EventBus" where
  "Add descriptor s =
     (case CollectionMap_Add descriptor (collectionMap s) of
        (k, cm) \<Rightarrow> (k, s\<lparr>collectionMap := cm\<rparr>))"

text \<open>\<open>EventBus::Publish\<close> forwards to the collection map.\<close>

definition Publish :: "RoutedEvent \<Rightarrow> EventBus \<Rightarrow> error + (nat \<times> nat) list" where
  "Publish event s = CollectionMap_Dispatch event (collectionMap s)"

text \<open>
  The two lambdas of \<open>Subscribe\<close>. \<open>dynamic_cast<TEvent&>(e)\<close> throws when the event
  is neither a \<open>TEvent\<close> nor of a class derived from it; \<open>cb\<close> is the user's callback,
  \<open>predicate\<close> the user's predicate.
\<close>

definition internalHandler :: "type_index \<Rightarrow> nat \<Rightarrow> RoutedEvent \<Rightarrow> error + nat list" where
  "internalHandler TEvent cb e = (if is_a e TEvent then Inr [cb] else Inl BadCast)"

definition internalPredicate ::
  "type_index \<Rightarrow> (RoutedEvent \<Rightarrow> bool) \<Rightarrow> RoutedEvent \<Rightarrow> error + bool" where
  "internalPredicate TEvent predicate e =
     (if is_a e TEvent then Inr (predicate e) else Inl BadCast)"

text \<open>\<open>Subscribe(handler, predicate)\<close>.\<close>

definition Subscribe ::
  "type_index \<Rightarrow> nat \<Rightarrow> (RoutedEvent \<Rightarrow> bool) \<Rightarrow> EventBus \<Rightarrow> nat \<times> EventBus" where
  "Subscribe TEvent cb predicate s =
     Add \<lparr>dtype = TEvent, dhandler = internalHandler TEvent cb,
          dpredicate = internalPredicate TEvent predicate\<rparr> s"

text \<open>\<open>Subscribe(handler)\<close>: the overload with one argument.\<close>

definition Subscribe_handler :: "type_index \<Rightarrow> nat \<Rightarrow> EventBus \<Rightarrow> nat \<times> EventBus" where
  "Subscribe_handler TEvent cb s = Subscribe TEvent cb (\<lambda>_. True) s"

text \<open>A sequence of \<open>Publish\<close> calls, stopping at the first that throws.\<close>

fun Publish_all :: "RoutedEvent list \<Rightarrow> EventBus \<Rightarrow> error + (nat \<times> nat) list list" where
  "Publish_all [] s = Inr []"
| "Publish_all (e # es) s =
     (case Publish e s of
        Inl err \<Rightarrow> Inl err
      | Inr cs \<Rightarrow> (case Publish_all es s of Inl err \<Rightarrow> Inl err | Inr css \<Rightarrow> Inr (cs # css)))"

section \<open>Well-formed bus states\<close>

text \<open>
  What holds of every bus that was built with the operations above: the allocator never
  hands out \<open>nullptr\<close>; a non-null pointer in \<open>handlers\<close> points to a live list, and
  two keys never share one; every live list belongs to a key, its nodes are distinct, and
  it holds every registration at most once, each one live, registered and pointing back to
  this list; every registration points to a live list, and its handler is a live handler
  object for the type under which that list is filed (the C++ type of the parameter
  \<open>EventHandler<T>&\<close> of \<open>AddHandler\<close>).
\<close>

definition bus_inv :: "(addr \<rightharpoonup> EventHandler) \<Rightarrow> EventBus \<Rightarrow> bool" where
  "bus_inv H s \<longleftrightarrow>
     0 < brk s \<and>
     (\<forall>k p. handlers s k = Some p \<longrightarrow> p \<noteq> 0 \<longrightarrow> lists s p \<noteq> None) \<and>
     (\<forall>k k' p. handlers s k = Some p \<longrightarrow> handlers s k' = Some p \<longrightarrow> p \<noteq> 0 \<longrightarrow> k = k') \<and>
     (\<forall>p l. lists s p = Some l \<longrightarrow>
        p \<noteq> 0 \<and> p < brk s \<and> (\<exists>k. handlers s k = Some p) \<and>
        distinct (map fst l) \<and> distinct (map snd l) \<and>
        (\<forall>x\<in>set l. fst x < brk s \<and>
           (\<exists>reg. regs s (snd x) = Some reg \<and> registrations reg = p \<and> registered reg))) \<and>
     (\<forall>r reg. regs s r = Some reg \<longrightarrow>
        r < brk s \<and> lists s (registrations reg) \<noteq> None \<and>
        (\<forall>k. handlers s k = Some (registrations reg) \<longrightarrow>
           (\<exists>ho. H (handler reg) = Some ho \<and> htype ho = k)))"

text \<open>
  Reading the heap: the handler stored in a registration, and the calls of
  \<open>removeHandler\<close> that this handler makes when it is dispatched the event \<open>e\<close>.
\<close>

definition handler_of :: "EventBus \<Rightarrow> addr \<Rightarrow> addr" where
  "handler_of s r = (case regs s r of None \<Rightarrow> 0 | Some reg \<Rightarrow> handler reg)"

definition script_of ::
  "(addr \<rightharpoonup> EventHandler) \<Rightarrow> RoutedEvent \<Rightarrow> EventBus \<Rightarrow> addr \<Rightarrow> addr list" where
  "script_of H e s r =
     (case H (handler_of s r) of None \<Rightarrow> [] | Some ho \<Rightarrow> onEvent ho e)"

text \<open>The registrations held by the list at \<open>p\<close>, in list order.\<close>

definition collection :: "EventBus \<Rightarrow> addr \<Rightarrow> addr list" where
  "collection s p = (case lists s p of None \<Rightarrow> [] | Some l \<Rightarrow> map snd l)"

text \<open>
  The registrations that one pass over a collection reaches when the handler of each
  registration \<open>r\<close> reached revokes the registrations \<open>sc r\<close>: the first one, then a
  pass over what its handler left of the rest.
\<close>

fun sweep :: "(addr \<Rightarrow> addr list) \<Rightarrow> addr list \<Rightarrow> addr list" where
  "sweep sc [] = []"
| "sweep sc (r # rs) = r # sweep sc (filter (\<lambda>r'. r' \<notin> set (sc r)) rs)"

text \<open>
  Calling \<open>removeHandler\<close> on one handle \<open>k\<close> times in a row.
\<close>

fun removeHandler_times :: "nat \<Rightarrow> addr \<Rightarrow> EventBus \<Rightarrow> error + EventBus" where
  "removeHandler_times 0 r s = Inr s"
| "removeHandler_times (Suc k) r s =
     (case removeHandler r s of Inl x \<Rightarrow> Inl x | Inr s' \<Rightarrow> removeHandler_times k r s')"

text \<open>The same bus with other sender fields: registration \<open>r\<close> gets the sender \<open>f r\<close>.\<close>

definition set_senders :: "(addr \<Rightarrow> addr) \<Rightarrow> EventBus \<Rightarrow> EventBus" where
  "set_senders f s =
     s\<lparr>regs := (\<lambda>r. map_option (\<lambda>g. g\<lparr>sender := f r\<rparr>) (regs s r))\<rparr>"

text \<open>
  No callback of a stored descriptor for the type of the event \<open>e\<close> throws on \<open>e\<close>.
\<close>

definition callbacks_ok :: "RoutedEvent \<Rightarrow> HandlerCollectionMap \<Rightarrow> bool" where
  "callbacks_ok e cm =
     list_all (\<lambda>x. dtype (snd x) \<noteq> etype e \<or>
                    (isl (dpredicate (snd x) e) = False \<and> isl (dhandler (snd x) e) = False))
       (entries cm)"

text \<open>
  The subscription handle \<open>k\<close> stands for a live subscription made by
  \<open>Subscribe(cb, predicate)\<close> for the type \<open>TEvent\<close>: its descriptor is stored under
  \<open>k\<close>, and no other descriptor is.
\<close>

definition subscribed ::
  "nat \<Rightarrow> type_index \<Rightarrow> nat \<Rightarrow> (RoutedEvent \<Rightarrow> bool) \<Rightarrow> EventBus \<Rightarrow> bool" where
  "subscribed k TEvent cb predicate s \<longleftrightarrow>
     distinct (map fst (entries (collectionMap s))) \<and>
     (k, \<lparr>dtype = TEvent, dhandler = internalHandler TEvent cb,
          dpredicate = internalPredicate TEvent predicate\<rparr>) \<in> set (entries (collectionMap s))"

text \<open>The handles of the stored descriptors are distinct and were handed out already.\<close>

definition cm_inv :: "HandlerCollectionMap \<Rightarrow> bool" where
  "cm_inv cm \<longleftrightarrow>
     distinct (map fst (entries cm)) \<and> list_all (\<lambda>x. fst x < next_id cm) (entries cm)"

section \<open>Later buses, and the specification of \<open>Subscribe\<close>\<close>

text \<open>
  The buses that a caller can reach from the bus \<open>s\<close> with the operations of the typed
  registry: \<open>AddHandler\<close> in both forms, with a handler object of the type it is
  registered for (the C++ type of the parameter \<open>EventHandler<T>&\<close>), \<open>removeHandler\<close>
  and \<open>FireEvent\<close>, each having returned.
\<close>

inductive later :: "(addr \<rightharpoonup> EventHandler) \<Rightarrow> EventBus \<Rightarrow> EventBus \<Rightarrow> bool"
  for H :: "addr \<rightharpoonup> EventHandler" and s :: EventBus where
  later_now: "later H s s"
| later_AddHandler:
    "later H s s1 \<Longrightarrow> H h = Some ho \<Longrightarrow> htype ho = T \<Longrightarrow> AddHandler T h s1 = Inr (r, s2) \<Longrightarrow>
     later H s s2"
| later_AddHandler_sender:
    "later H s s1 \<Longrightarrow> H h = Some ho \<Longrightarrow> htype ho = T \<Longrightarrow>
     AddHandler_sender T h a slot s1 = Inr (r, s2) \<Longrightarrow> later H s s2"
| later_removeHandler:
    "later H s s1 \<Longrightarrow> removeHandler r s1 = Inr s2 \<Longrightarrow> later H s s2"
| later_FireEvent:
    "later H s s1 \<Longrightarrow> FireEvent H e s1 = Some (Inr (tr, s2)) \<Longrightarrow> later H s s2"

text \<open>
  What no operation undoes: a non-null entry of \<open>handlers\<close> stays, and a registration
  stays, with its handler and its list; its flag is never set again.
\<close>

definition extends :: "EventBus \<Rightarrow> EventBus \<Rightarrow> bool" where
  "extends s s' \<longleftrightarrow>
     (\<forall>A p. handlers s A = Some p \<longrightarrow> p \<noteq> 0 \<longrightarrow> handlers s' A = Some p) \<and>
     (\<forall>r reg. regs s r = Some reg \<longrightarrow>
        (\<exists>reg'. regs s' r = Some reg' \<and> handler reg' = handler reg \<and>
           registrations reg' = registrations reg \<and> (registered reg' \<longrightarrow> registered reg)))"

text \<open>
  \<open>Subscribe\<close> as the specification words it, with an optional predicate that defaults
  to always-true: the descriptor has the type key of \<open>TEvent\<close>, a dispatch callback that
  downcasts the event and invokes the callback, and a predicate callback that downcasts
  the event and invokes the predicate; it is registered with \<open>Add\<close>.
\<close>

definition Subscribe_spec ::
  "type_index \<Rightarrow> nat \<Rightarrow> (RoutedEvent \<Rightarrow> bool) option \<Rightarrow> EventBus \<Rightarrow> nat \<times> EventBus" where
  "Subscribe_spec TEvent cb predicate_opt s =
     Add \<lparr>dtype = TEvent,
          dhandler = (\<lambda>e. if is_a e TEvent then Inr [cb] else Inl BadCast),
          dpredicate = (\<lambda>e. if is_a e TEvent
                            then Inr ((case predicate_opt of None \<Rightarrow> (\<lambda>e. True) | Some p \<Rightarrow> p) e)
                            else Inl BadCast)\<rparr> s"

section \<open>Example buses\<close>

text \<open>
  Handler objects of a caller: three handlers for type 1 and one for type 2 that revoke
  nothing, and three handlers for type 1 that revoke the registration at address 2, at
  address 4 and at address 5.
\<close>

definition ex_handlers :: "addr \<rightharpoonup> EventHandler" where
  "ex_handlers =
     [10 \<mapsto> \<lparr>htype = 1, onEvent = (\<lambda>e. [])\<rparr>,
      11 \<mapsto> \<lparr>htype = 1, onEvent = (\<lambda>e. [])\<rparr>,
      12 \<mapsto> \<lparr>htype = 1, onEvent = (\<lambda>e. [])\<rparr>,
      20 \<mapsto> \<lparr>htype = 2, onEvent = (\<lambda>e. [])\<rparr>,
      30 \<mapsto> \<lparr>htype = 1, onEvent = (\<lambda>e. [2])\<rparr>,
      31 \<mapsto> \<lparr>htype = 1, onEvent = (\<lambda>e. [4])\<rparr>,
      33 \<mapsto> \<lparr>htype = 1, onEvent = (\<lambda>e. [5])\<rparr>]"

definition ex_event1 :: RoutedEvent where
  "ex_event1 = \<lparr>etype = 1, bases = [], payload = 0\<rparr>"

definition ex_event2 :: RoutedEvent where
  "ex_event2 = \<lparr>etype = 2, bases = [], payload = 0\<rparr>"

text \<open>
  The bus after \<open>AddHandler\<close> for type 1 with the handlers \<open>h1\<close>, \<open>h2\<close> and \<open>h3\<close>, in
  this order, on a new bus: the list is at address 1, the registrations are at 2, 4 and 6.
\<close>

definition ex_bus1 :: "addr \<Rightarrow> EventBus" where
  "ex_bus1 h1 =
     \<lparr>handlers = [1 \<mapsto> 1], collectionMap = \<lparr>entries = [], next_id = 0\<rparr>,
      lists = [1 \<mapsto> [(3, 2)]],
      regs = [2 \<mapsto> \<lparr>handler = h1, registrations = 1, sender = 0, registered = True\<rparr>],
      brk = 4\<rparr>"

definition ex_bus2 :: "addr \<Rightarrow> addr \<Rightarrow> EventBus" where
  "ex_bus2 h1 h2 =
     \<lparr>handlers = [1 \<mapsto> 1], collectionMap = \<lparr>entries = [], next_id = 0\<rparr>,
      lists = [1 \<mapsto> [(3, 2), (5, 4)]],
      regs = [2 \<mapsto> \<lparr>handler = h1, registrations = 1, sender = 0, registered = True\<rparr>,
              4 \<mapsto> \<lparr>handler = h2, registrations = 1, sender = 0, registered = True\<rparr>],
      brk = 6\<rparr>"

definition ex_bus3 :: "addr \<Rightarrow> addr \<Rightarrow> addr \<Rightarrow> EventBus" where
  "ex_bus3 h1 h2 h3 =
     \<lparr>handlers = [1 \<mapsto> 1], collectionMap = \<lparr>entries = [], next_id = 0\<rparr>,
      lists = [1 \<mapsto> [(3, 2), (5, 4), (7, 6)]],
      regs = [2 \<mapsto> \<lparr>handler = h1, registrations = 1, sender = 0, registered = True\<rparr>,
              4 \<mapsto> \<lparr>handler = h2, registrations = 1, sender = 0, registered = True\<rparr>,
              6 \<mapsto> \<lparr>handler = h3, registrations = 1, sender = 0, registered = True\<rparr>],
      brk = 8\<rparr>"

text \<open>
  The bus after \<open>AddHandler\<close> for type 1 with handler 10 and then \<open>AddHandler\<close> for
  type 2 with handler 20, on a new bus: the lists are at 1 and 4, the registrations at 2
  and 5.
\<close>

definition ex_bus_types :: EventBus where
  "ex_bus_types =
     \<lparr>handlers = [1 \<mapsto> 1, 2 \<mapsto> 4], collectionMap = \<lparr>entries = [], next_id = 0\<rparr>,
      lists = [1 \<mapsto> [(3, 2)], 4 \<mapsto> [(6, 5)]],
      regs = [2 \<mapsto> \<lparr>handler = 10, registrations = 1, sender = 0, registered = True\<rparr>,
              5 \<mapsto> \<lparr>handler = 20, registrations = 4, sender = 0, registered = True\<rparr>],
      brk = 7\<rparr>"


text \<open>
  The bus \<open>ex_bus_types\<close> after \<open>AddHandler\<close> for type 1 with handler 33 and then with
  handler 12: the collection of type 1 holds the registrations 2, 7 and 9, of the handlers
  10, 33 and 12; the collection of type 2 holds the registration 5 of handler 20, which
  handler 33 revokes. Each registration has the sender \<open>snd_of r\<close>.
\<close>

definition ex_bus_mixed :: "(addr \<Rightarrow> addr) \<Rightarrow> EventBus" where
  "ex_bus_mixed snd_of =
     \<lparr>handlers = [1 \<mapsto> 1, 2 \<mapsto> 4], collectionMap = \<lparr>entries = [], next_id = 0\<rparr>,
      lists = [1 \<mapsto> [(3, 2), (8, 7), (10, 9)], 4 \<mapsto> [(6, 5)]],
      regs = [2 \<mapsto> \<lparr>handler = 10, registrations = 1, sender = snd_of 2, registered = True\<rparr>,
              5 \<mapsto> \<lparr>handler = 20, registrations = 4, sender = snd_of 5, registered = True\<rparr>,
              7 \<mapsto> \<lparr>handler = 33, registrations = 1, sender = snd_of 7, registered = True\<rparr>,
              9 \<mapsto> \<lparr>handler = 12, registrations = 1, sender = snd_of 9, registered = True\<rparr>],
      brk = 11\<rparr>"

text \<open>
  The same bus once the handlers 10, 33 and 12 have run: registration 5 is revoked and the
  collection of type 2 is empty.
\<close>

definition ex_bus_mixed_fired :: "(addr \<Rightarrow> addr) \<Rightarrow> EventBus" where
  "ex_bus_mixed_fired snd_of =
     \<lparr>handlers = [1 \<mapsto> 1, 2 \<mapsto> 4], collectionMap = \<lparr>entries = [], next_id = 0\<rparr>,
      lists = [1 \<mapsto> [(3, 2), (8, 7), (10, 9)], 4 \<mapsto> []],
      regs = [2 \<mapsto> \<lparr>handler = 10, registrations = 1, sender = snd_of 2, registered = True\<rparr>,
              5 \<mapsto> \<lparr>handler = 20, registrations = 4, sender = snd_of 5, registered = False\<rparr>,
              7 \<mapsto> \<lparr>handler = 33, registrations = 1, sender = snd_of 7, registered = True\<rparr>,
              9 \<mapsto> \<lparr>handler = 12, registrations = 1, sender = snd_of 9, registered = True\<rparr>],
      brk = 11\<rparr>"

text \<open>
  The senders of a caller: the parameter of the call that registered handler 10 was at
  address 200, that of the call that registered handler 12 at address 201; the other
  registrations have no sender.
\<close>

definition ex_senders :: "addr \<Rightarrow> addr" where
  "ex_senders r = (if r = 2 then 200 else if r = 9 then 201 else 0)"

section \<open>Well-formedness is kept\<close>

lemma bus_inv_init: "bus_inv H EventBus_init"
  by (simp add: bus_inv_def EventBus_init_def)

lemma bus_invI:
  assumes "0 < brk s"
    and "\<And>k p. handlers s k = Some p \<Longrightarrow> p \<noteq> 0 \<Longrightarrow> lists s p \<noteq> None"
    and "\<And>k k' p. handlers s k = Some p \<Longrightarrow> handlers s k' = Some p \<Longrightarrow> p \<noteq> 0 \<Longrightarrow> k = k'"
    and "\<And>p l. lists s p = Some l \<Longrightarrow>
           p \<noteq> 0 \<and> p < brk s \<and> (\<exists>k. handlers s k = Some p) \<and>
           distinct (map fst l) \<and> distinct (map snd l)"
    and "\<And>p l x. lists s p = Some l \<Longrightarrow> x \<in> set l \<Longrightarrow>
           fst x < brk s \<and>
           (\<exists>reg. regs s (snd x) = Some reg \<and> registrations reg = p \<and> registered reg)"
    and "\<And>r reg. regs s r = Some reg \<Longrightarrow> r < brk s \<and> lists s (registrations reg) \<noteq> None"
    and "\<And>r reg k. regs s r = Some reg \<Longrightarrow> handlers s k = Some (registrations reg) \<Longrightarrow>
           \<exists>ho. H (handler reg) = Some ho \<and> htype ho = k"
  shows "bus_inv H s"
  unfolding bus_inv_def using assms by blast

lemma bus_inv_brk: "bus_inv H s \<Longrightarrow> 0 < brk s"
  by (simp add: bus_inv_def)

lemma bus_inv_handlers:
  "bus_inv H s \<Longrightarrow> handlers s k = Some p \<Longrightarrow> p \<noteq> 0 \<Longrightarrow> \<exists>l. lists s p = Some l"
  unfolding bus_inv_def by blast

lemma bus_inv_inj:
  "bus_inv H s \<Longrightarrow> handlers s k = Some p \<Longrightarrow> handlers s k' = Some p \<Longrightarrow> p \<noteq> 0 \<Longrightarrow> k = k'"
  unfolding bus_inv_def by blast

lemma bus_inv_list:
  "bus_inv H s \<Longrightarrow> lists s p = Some l \<Longrightarrow>
     p \<noteq> 0 \<and> p < brk s \<and> (\<exists>k. handlers s k = Some p) \<and>
     distinct (map fst l) \<and> distinct (map snd l)"
  unfolding bus_inv_def by blast

lemma bus_inv_elem:
  "bus_inv H s \<Longrightarrow> lists s p = Some l \<Longrightarrow> x \<in> set l \<Longrightarrow>
     fst x < brk s \<and>
     (\<exists>reg. regs s (snd x) = Some reg \<and> registrations reg = p \<and> registered reg)"
  unfolding bus_inv_def by blast

lemma bus_inv_reg:
  "bus_inv H s \<Longrightarrow> regs s r = Some reg \<Longrightarrow>
     r < brk s \<and> (\<exists>l. lists s (registrations reg) = Some l)"
  unfolding bus_inv_def by blast

lemma bus_inv_typed:
  "bus_inv H s \<Longrightarrow> regs s r = Some reg \<Longrightarrow> handlers s k = Some (registrations reg) \<Longrightarrow>
     \<exists>ho. H (handler reg) = Some ho \<and> htype ho = k"
  unfolding bus_inv_def by blast

lemma bus_inv_null_list: "bus_inv H s \<Longrightarrow> lists s 0 = None"
  using bus_inv_list [of H s 0] by (cases "lists s 0") auto

lemma bus_inv_null_entry:
  assumes inv: "bus_inv H s" and k: "handlers s k = None"
  shows "bus_inv H (s\<lparr>handlers := (handlers s)(k \<mapsto> 0)\<rparr>)"
proof (rule bus_invI)
  let ?s = "s\<lparr>handlers := (handlers s)(k \<mapsto> 0)\<rparr>"
  show "0 < brk ?s" using bus_inv_brk [OF inv] by simp
  show "lists ?s p \<noteq> None" if "handlers ?s k' = Some p" "p \<noteq> 0" for k' p
    using that bus_inv_handlers [OF inv, of k' p] by (auto split: if_splits)
  show "k1 = k2" if "handlers ?s k1 = Some p" "handlers ?s k2 = Some p" "p \<noteq> 0" for k1 k2 p
    using that bus_inv_inj [OF inv, of k1 p k2] by (auto split: if_splits)
  show "p \<noteq> 0 \<and> p < brk ?s \<and> (\<exists>k. handlers ?s k = Some p) \<and>
        distinct (map fst l) \<and> distinct (map snd l)" if "lists ?s p = Some l" for p l
  proof -
    from that have l: "lists s p = Some l" by simp
    from bus_inv_list [OF inv l] obtain k' where k': "handlers s k' = Some p" by blast
    with k have "k' \<noteq> k" by auto
    with k' have "handlers ?s k' = Some p" by simp
    then have "\<exists>k. handlers ?s k = Some p" ..
    with bus_inv_list [OF inv l] show ?thesis by simp
  qed
  show "fst x < brk ?s \<and>
        (\<exists>reg. regs ?s (snd x) = Some reg \<and> registrations reg = p \<and> registered reg)"
    if "lists ?s p = Some l" "x \<in> set l" for p l x
    using that bus_inv_elem [OF inv, of p l x] by simp
  show "r < brk ?s \<and> lists ?s (registrations reg) \<noteq> None" if "regs ?s r = Some reg" for r reg
    using that bus_inv_reg [OF inv, of r reg] by auto
  show "\<exists>ho. H (handler reg) = Some ho \<and> htype ho = k'"
    if "regs ?s r = Some reg" "handlers ?s k' = Some (registrations reg)" for r reg k'
  proof -
    from that(1) have r: "regs s r = Some reg" by simp
    from bus_inv_reg [OF inv r] obtain l where l: "lists s (registrations reg) = Some l" by blast
    from bus_inv_list [OF inv l] have "registrations reg \<noteq> 0" by simp
    with that(2) have "handlers s k' = Some (registrations reg)" by (auto split: if_splits)
    from bus_inv_typed [OF inv r this] show ?thesis .
  qed
qed

lemma bus_inv_handlers_index: "bus_inv H s \<Longrightarrow> bus_inv H (snd (handlers_index k s))"
  by (cases "handlers s k") (simp_all add: handlers_index_def bus_inv_null_entry)

lemma bus_inv_new_list:
  assumes inv: "bus_inv H s" and k: "handlers s k = Some 0"
  shows "bus_inv H (s\<lparr>lists := (lists s)(brk s \<mapsto> []),
                       handlers := (handlers s)(k \<mapsto> brk s),
                       brk := Suc (brk s)\<rparr>)"
proof (rule bus_invI)
  let ?s = "s\<lparr>lists := (lists s)(brk s \<mapsto> []), handlers := (handlers s)(k \<mapsto> brk s),
              brk := Suc (brk s)\<rparr>"
  have fresh: "lists s (brk s) = None"
    using bus_inv_list [OF inv, of "brk s"] by (cases "lists s (brk s)") auto
  have nothd: "handlers s k' \<noteq> Some (brk s)" for k'
    using bus_inv_handlers [OF inv, of k' "brk s"] bus_inv_brk [OF inv] fresh by auto
  show "0 < brk ?s" by simp
  show "lists ?s p \<noteq> None" if "handlers ?s k' = Some p" "p \<noteq> 0" for k' p
    using that bus_inv_handlers [OF inv, of k' p] by (auto split: if_splits)
  show "k1 = k2" if "handlers ?s k1 = Some p" "handlers ?s k2 = Some p" "p \<noteq> 0" for k1 k2 p
    using that bus_inv_inj [OF inv, of k1 p k2] nothd by (auto split: if_splits)
  show "p \<noteq> 0 \<and> p < brk ?s \<and> (\<exists>k. handlers ?s k = Some p) \<and>
        distinct (map fst l) \<and> distinct (map snd l)" if "lists ?s p = Some l" for p l
  proof (cases "p = brk s")
    case True
    with that bus_inv_brk [OF inv] show ?thesis by auto
  next
    case False
    with that have l: "lists s p = Some l" by simp
    from bus_inv_list [OF inv l] obtain k' where k': "handlers s k' = Some p" and "p \<noteq> 0" by blast
    with k have "k' \<noteq> k" by auto
    with k' have "handlers ?s k' = Some p" by simp
    then have "\<exists>k. handlers ?s k = Some p" ..
    with bus_inv_list [OF inv l] show ?thesis by simp
  qed
  show "fst x < brk ?s \<and>
        (\<exists>reg. regs ?s (snd x) = Some reg \<and> registrations reg = p \<and> registered reg)"
    if "lists ?s p = Some l" "x \<in> set l" for p l x
    using that bus_inv_elem [OF inv, of p l x] by (auto split: if_splits)
  show "r < brk ?s \<and> lists ?s (registrations reg) \<noteq> None" if "regs ?s r = Some reg" for r reg
    using that bus_inv_reg [OF inv, of r reg] by auto
  show "\<exists>ho. H (handler reg) = Some ho \<and> htype ho = k'"
    if "regs ?s r = Some reg" "handlers ?s k' = Some (registrations reg)" for r reg k'
  proof -
    from that(1) have r: "regs s r = Some reg" by simp
    from bus_inv_reg [OF inv r] obtain l where l: "lists s (registrations reg) = Some l" by blast
    with fresh have "registrations reg \<noteq> brk s" by auto
    with that(2) have "handlers s k' = Some (registrations reg)" by (auto split: if_splits)
    from bus_inv_typed [OF inv r this] show ?thesis .
  qed
qed

lemma bus_inv_fresh_reg: "bus_inv H s \<Longrightarrow> brk s \<le> r \<Longrightarrow> regs s r = None"
  using bus_inv_reg [of H s r] by (cases "regs s r") auto

lemma bus_inv_fresh_list: "bus_inv H s \<Longrightarrow> brk s \<le> p \<Longrightarrow> lists s p = None"
  using bus_inv_list [of H s p] by (cases "lists s p") auto

lemma bus_inv_fresh_node:
  "bus_inv H s \<Longrightarrow> lists s p = Some l \<Longrightarrow> brk s \<le> n \<Longrightarrow> n \<notin> fst ` set l"
  using bus_inv_elem [of H s p l] by fastforce

lemma bus_inv_fresh_value:
  "bus_inv H s \<Longrightarrow> lists s p = Some l \<Longrightarrow> brk s \<le> r \<Longrightarrow> r \<notin> snd ` set l"
proof
  assume inv: "bus_inv H s" and l: "lists s p = Some l" and r: "brk s \<le> r" and "r \<in> snd ` set l"
  then obtain x where x: "x \<in> set l" "snd x = r" by auto
  from bus_inv_elem [OF inv l x(1)] x(2) obtain reg where "regs s r = Some reg" by auto
  with bus_inv_fresh_reg [OF inv r] show False by simp
qed

lemma bus_inv_push:
  assumes inv: "bus_inv H s" and l: "lists s p = Some l" and k: "handlers s T = Some p"
    and h: "H h = Some ho" "htype ho = T"
  shows "bus_inv H (s\<lparr>regs := (regs s)(brk s \<mapsto>
                         \<lparr>handler = h, registrations = p, sender = sv, registered = True\<rparr>),
                       lists := (lists s)(p \<mapsto> l @ [(Suc (brk s), brk s)]),
                       brk := Suc (Suc (brk s))\<rparr>)"
proof (rule bus_invI)
  let ?reg = "\<lparr>handler = h, registrations = p, sender = sv, registered = True\<rparr>"
  let ?s = "s\<lparr>regs := (regs s)(brk s \<mapsto> ?reg),
              lists := (lists s)(p \<mapsto> l @ [(Suc (brk s), brk s)]),
              brk := Suc (Suc (brk s))\<rparr>"
  note pl = bus_inv_list [OF inv l]
  have fresh: "regs s (brk s) = None" using bus_inv_fresh_reg [OF inv] by simp
  have fnode: "Suc (brk s) \<notin> fst ` set l" using bus_inv_fresh_node [OF inv l] by simp
  have fval: "brk s \<notin> snd ` set l" using bus_inv_fresh_value [OF inv l] by simp
  show "0 < brk ?s" by simp
  show "lists ?s p' \<noteq> None" if "handlers ?s k' = Some p'" "p' \<noteq> 0" for k' p'
    using that bus_inv_handlers [OF inv, of k' p'] by auto
  show "k1 = k2" if "handlers ?s k1 = Some p'" "handlers ?s k2 = Some p'" "p' \<noteq> 0" for k1 k2 p'
    using that bus_inv_inj [OF inv, of k1 p' k2] by simp
  show "p' \<noteq> 0 \<and> p' < brk ?s \<and> (\<exists>k. handlers ?s k = Some p') \<and>
        distinct (map fst l') \<and> distinct (map snd l')" if "lists ?s p' = Some l'" for p' l'
  proof (cases "p' = p")
    case True
    with that have "l' = l @ [(Suc (brk s), brk s)]" by simp
    with True pl fnode fval show ?thesis by auto
  next
    case False
    with that have "lists s p' = Some l'" by simp
    from bus_inv_list [OF inv this] show ?thesis by auto
  qed
  show "fst x < brk ?s \<and>
        (\<exists>reg. regs ?s (snd x) = Some reg \<and> registrations reg = p' \<and> registered reg)"
    if "lists ?s p' = Some l'" "x \<in> set l'" for p' l' x
  proof (cases "p' = p")
    case True
    with that have "x \<in> set l \<or> x = (Suc (brk s), brk s)" by auto
    then show ?thesis
    proof
      assume x: "x \<in> set l"
      with fval have "snd x \<noteq> brk s" by (metis imageI)
      with bus_inv_elem [OF inv l x] True show ?thesis by auto
    next
      assume "x = (Suc (brk s), brk s)"
      with True show ?thesis by simp
    qed
  next
    case False
    with that have l': "lists s p' = Some l'" by simp
    from bus_inv_fresh_value [OF inv l', of "brk s"] that(2) have "snd x \<noteq> brk s"
      by (metis imageI order_refl)
    with bus_inv_elem [OF inv l' that(2)] show ?thesis by auto
  qed
  show "r < brk ?s \<and> lists ?s (registrations reg) \<noteq> None" if "regs ?s r = Some reg" for r reg
  proof (cases "r = brk s")
    case True
    with that show ?thesis by auto
  next
    case False
    with that have "regs s r = Some reg" by simp
    from bus_inv_reg [OF inv this] show ?thesis by auto
  qed
  show "\<exists>ho. H (handler reg) = Some ho \<and> htype ho = k'"
    if "regs ?s r = Some reg" "handlers ?s k' = Some (registrations reg)" for r reg k'
  proof (cases "r = brk s")
    case True
    with that have "reg = ?reg" "handlers s k' = Some p" by auto
    with bus_inv_inj [OF inv k, of k'] pl h show ?thesis by auto
  next
    case False
    with that have "regs s r = Some reg" "handlers s k' = Some (registrations reg)" by simp_all
    from bus_inv_typed [OF inv this] show ?thesis .
  qed
qed

text \<open>\<open>AddHandler\<close> on a well-formed bus succeeds, appends, and keeps the bus well-formed.\<close>

lemma AddHandler_body_inv:
  assumes inv: "bus_inv H s" and h: "H h = Some ho" "htype ho = T"
  shows "\<exists>r n p l s'. AddHandler_body T h sv s = Inr (r, s') \<and> bus_inv H s' \<and>
           handlers s' T = Some p \<and> p \<noteq> 0 \<and>
           (case handlers s T of None \<Rightarrow> l = [] | Some q \<Rightarrow> if q = 0 then l = [] else q = p \<and> lists s p = Some l) \<and>
           lists s' p = Some (l @ [(n, r)]) \<and>
           regs s' r = Some \<lparr>handler = h, registrations = p, sender = sv, registered = True\<rparr> \<and>
           regs s r = None \<and> collectionMap s' = collectionMap s"
proof -
  define s1 where "s1 = snd (handlers_index T s)"
  define p0 where "p0 = fst (handlers_index T s)"
  have inv1: "bus_inv H s1" unfolding s1_def by (rule bus_inv_handlers_index [OF inv])
  have hi: "handlers_index T s = (p0, s1)" by (simp add: p0_def s1_def)
  have k1: "handlers s1 T = Some p0"
    by (cases "handlers s T") (simp_all add: p0_def s1_def handlers_index_def)
  have same1: "lists s1 = lists s" "regs s1 = regs s" "brk s1 = brk s" "collectionMap s1 = collectionMap s"
    by (cases "handlers s T"; simp add: s1_def handlers_index_def)+
  show ?thesis
  proof (cases "p0 = 0")
    case True
    define s2 where "s2 = s1\<lparr>lists := (lists s1)(brk s1 \<mapsto> []),
                    handlers := (handlers s1)(T \<mapsto> brk s1), brk := Suc (brk s1)\<rparr>"
    define s3 where "s3 = s2\<lparr>regs := (regs s2)(brk s2 \<mapsto>
                         \<lparr>handler = h, registrations = brk s1, sender = sv, registered = True\<rparr>),
                       lists := (lists s2)(brk s1 \<mapsto> [] @ [(Suc (brk s2), brk s2)]),
                       brk := Suc (Suc (brk s2))\<rparr>"
    have inv2: "bus_inv H s2" unfolding s2_def using bus_inv_new_list [OF inv1] k1 True by simp
    have l2: "lists s2 (brk s1) = Some []" and k2: "handlers s2 T = Some (brk s1)"
      and b2: "brk s2 = Suc (brk s)" and r2: "regs s2 = regs s"
      and c2: "collectionMap s2 = collectionMap s"
      by (simp_all add: s2_def same1)
    have inv3: "bus_inv H s3" unfolding s3_def by (rule bus_inv_push [OF inv2 l2 k2 h])
    have run: "AddHandler_body T h sv s = Inr (Suc (brk s), s3)"
      by (simp add: AddHandler_body_def hi True s3_def s2_def same1)
    have old: "case handlers s T of None \<Rightarrow> True | Some q \<Rightarrow> q = 0"
      using True by (cases "handlers s T") (simp_all add: p0_def handlers_index_def)
    have fr: "regs s (Suc (brk s)) = None" using bus_inv_fresh_reg [OF inv] by simp
    have "handlers s3 T = Some (brk s)" "brk s \<noteq> 0"
      "lists s3 (brk s) = Some ([] @ [(Suc (Suc (brk s)), Suc (brk s))])"
      "regs s3 (Suc (brk s)) = Some \<lparr>handler = h, registrations = brk s, sender = sv, registered = True\<rparr>"
      "collectionMap s3 = collectionMap s"
      using bus_inv_brk [OF inv] by (simp_all add: s3_def s2_def same1)
    moreover have "case handlers s T of None \<Rightarrow> [] = [] | Some q \<Rightarrow> if q = 0 then [] = [] else q = brk s \<and> lists s (brk s) = Some []"
      using old by (simp split: option.splits)
    ultimately show ?thesis using run inv3 fr by blast
  next
    case False
    from bus_inv_handlers [OF inv1 k1 False] obtain l where l1: "lists s1 p0 = Some l" by blast
    define s3 where "s3 = s1\<lparr>regs := (regs s1)(brk s1 \<mapsto>
                         \<lparr>handler = h, registrations = p0, sender = sv, registered = True\<rparr>),
                       lists := (lists s1)(p0 \<mapsto> l @ [(Suc (brk s1), brk s1)]),
                       brk := Suc (Suc (brk s1))\<rparr>"
    have inv3: "bus_inv H s3" unfolding s3_def by (rule bus_inv_push [OF inv1 l1 k1 h])
    have run: "AddHandler_body T h sv s = Inr (brk s, s3)"
      using l1 by (simp add: AddHandler_body_def hi False s3_def same1)
    have old: "handlers s T = Some p0"
      using False by (cases "handlers s T") (simp_all add: p0_def handlers_index_def)
    have fr: "regs s (brk s) = None" using bus_inv_fresh_reg [OF inv] by simp
    have "handlers s3 T = Some p0"
      "lists s3 p0 = Some (l @ [(Suc (brk s), brk s)])"
      "regs s3 (brk s) = Some \<lparr>handler = h, registrations = p0, sender = sv, registered = True\<rparr>"
      "collectionMap s3 = collectionMap s"
      using k1 by (simp_all add: s3_def same1)
    moreover have "case handlers s T of None \<Rightarrow> l = [] | Some q \<Rightarrow> if q = 0 then l = [] else q = p0 \<and> lists s p0 = Some l"
      using old False l1 by (simp add: same1)
    ultimately show ?thesis using run inv3 fr False by blast
  qed
qed

lemma AddHandler_inv:
  assumes "bus_inv H s" and "H h = Some ho" and "htype ho = T" and "AddHandler T h s = Inr (r, s')"
  shows "bus_inv H s'"
  using AddHandler_body_inv [OF assms(1-3), of 0] assms(4) by (auto simp: AddHandler_def)

lemma AddHandler_sender_inv:
  assumes "bus_inv H s" and "H h = Some ho" and "htype ho = T"
    and "AddHandler_sender T h a slot s = Inr (r, s')"
  shows "bus_inv H s'"
  using AddHandler_body_inv [OF assms(1-3), of slot] assms(4)
  by (auto simp: AddHandler_sender_def)

lemma bus_inv_not_in_other:
  assumes inv: "bus_inv H s" and r: "regs s r = Some reg" and l: "lists s p = Some l"
    and x: "x \<in> set l" and ne: "p \<noteq> registrations reg \<or> \<not> registered reg"
  shows "snd x \<noteq> r"
  using bus_inv_elem [OF inv l x] r ne by auto

lemma bus_inv_filter_other:
  assumes inv: "bus_inv H s" and r: "regs s r = Some reg" and l: "lists s p = Some l"
    and ne: "p \<noteq> registrations reg \<or> \<not> registered reg"
  shows "filter (\<lambda>x. snd x \<noteq> r) l = l"
  using bus_inv_not_in_other [OF inv r l _ ne] by (simp add: filter_id_conv)

lemma bus_inv_erase:
  assumes inv: "bus_inv H s" and r: "regs s r = Some reg"
    and l: "lists s (registrations reg) = Some l"
  shows "bus_inv H (s\<lparr>lists := (lists s)(registrations reg \<mapsto> filter (\<lambda>x. snd x \<noteq> r) l),
                       regs := (regs s)(r \<mapsto> reg\<lparr>registered := False\<rparr>)\<rparr>)"
proof (rule bus_invI)
  let ?q = "registrations reg"
  let ?s = "s\<lparr>lists := (lists s)(?q \<mapsto> filter (\<lambda>x. snd x \<noteq> r) l),
              regs := (regs s)(r \<mapsto> reg\<lparr>registered := False\<rparr>)\<rparr>"
  show "0 < brk ?s" using bus_inv_brk [OF inv] by simp
  show "lists ?s p' \<noteq> None" if "handlers ?s k' = Some p'" "p' \<noteq> 0" for k' p'
    using that bus_inv_handlers [OF inv, of k' p'] by auto
  show "k1 = k2" if "handlers ?s k1 = Some p'" "handlers ?s k2 = Some p'" "p' \<noteq> 0" for k1 k2 p'
    using that bus_inv_inj [OF inv, of k1 p' k2] by simp
  show "p' \<noteq> 0 \<and> p' < brk ?s \<and> (\<exists>k. handlers ?s k = Some p') \<and>
        distinct (map fst l') \<and> distinct (map snd l')" if "lists ?s p' = Some l'" for p' l'
  proof (cases "p' = ?q")
    case True
    with that have "l' = filter (\<lambda>x. snd x \<noteq> r) l" by simp
    with True bus_inv_list [OF inv l] show ?thesis by (simp add: distinct_map_filter)
  next
    case False
    with that have "lists s p' = Some l'" by simp
    from bus_inv_list [OF inv this] show ?thesis by simp
  qed
  show "fst x < brk ?s \<and>
        (\<exists>reg. regs ?s (snd x) = Some reg \<and> registrations reg = p' \<and> registered reg)"
    if "lists ?s p' = Some l'" "x \<in> set l'" for p' l' x
  proof (cases "p' = ?q")
    case True
    with that have "x \<in> set l" "snd x \<noteq> r" by auto
    with bus_inv_elem [OF inv l, of x] True show ?thesis by simp
  next
    case False
    with that have l': "lists s p' = Some l'" by simp
    from bus_inv_not_in_other [OF inv r l' that(2)] False have "snd x \<noteq> r" by simp
    with bus_inv_elem [OF inv l' that(2)] show ?thesis by simp
  qed
  show "r' < brk ?s \<and> lists ?s (registrations reg') \<noteq> None" if "regs ?s r' = Some reg'"
    for r' reg'
  proof (cases "r' = r")
    case True
    with that have "registrations reg' = ?q" by auto
    with True bus_inv_reg [OF inv r] show ?thesis by simp
  next
    case False
    with that have "regs s r' = Some reg'" by simp
    from bus_inv_reg [OF inv this] show ?thesis by auto
  qed
  show "\<exists>ho. H (handler reg') = Some ho \<and> htype ho = k'"
    if "regs ?s r' = Some reg'" "handlers ?s k' = Some (registrations reg')" for r' reg' k'
  proof (cases "r' = r")
    case True
    with that have "handler reg' = handler reg" "handlers s k' = Some ?q" by auto
    with bus_inv_typed [OF inv r, of k'] show ?thesis by simp
  next
    case False
    with that have "regs s r' = Some reg'" "handlers s k' = Some (registrations reg')" by simp_all
    from bus_inv_typed [OF inv this] show ?thesis .
  qed
qed

text \<open>
  What \<open>removeHandler\<close> does to a well-formed bus: it succeeds on every registration
  handle, erases the registration from every list, and clears its flag.
\<close>

lemma removeHandler_inv:
  assumes inv: "bus_inv H s" and r: "regs s r = Some reg"
  shows "\<exists>s'. removeHandler r s = Inr s' \<and> bus_inv H s' \<and>
           handlers s' = handlers s \<and> brk s' = brk s \<and> collectionMap s' = collectionMap s \<and>
           (\<forall>p. lists s' p = map_option (filter (\<lambda>x. snd x \<noteq> r)) (lists s p)) \<and>
           regs s' = (regs s)(r \<mapsto> reg\<lparr>registered := False\<rparr>)"
proof (cases "registered reg")
  case True
  from bus_inv_reg [OF inv r] obtain l where l: "lists s (registrations reg) = Some l" by blast
  let ?s = "s\<lparr>lists := (lists s)(registrations reg \<mapsto> filter (\<lambda>x. snd x \<noteq> r) l),
              regs := (regs s)(r \<mapsto> reg\<lparr>registered := False\<rparr>)\<rparr>"
  have run: "removeHandler r s = Inr ?s" using r l True by (simp add: removeHandler_def)
  have "lists ?s p = map_option (filter (\<lambda>x. snd x \<noteq> r)) (lists s p)" for p
  proof (cases "p = registrations reg")
    case True
    with l show ?thesis by simp
  next
    case False
    show ?thesis
    proof (cases "lists s p")
      case None
      with False show ?thesis by simp
    next
      case (Some l')
      from bus_inv_filter_other [OF inv r Some] False Some show ?thesis by simp
    qed
  qed
  with run bus_inv_erase [OF inv r l] show ?thesis by simp
next
  case False
  have run: "removeHandler r s = Inr s" using r False by (simp add: removeHandler_def)
  have "lists s p = map_option (filter (\<lambda>x. snd x \<noteq> r)) (lists s p)" for p
  proof (cases "lists s p")
    case None
    then show ?thesis by simp
  next
    case (Some l')
    from bus_inv_filter_other [OF inv r Some] False Some show ?thesis by simp
  qed
  moreover have "regs s = (regs s)(r \<mapsto> reg\<lparr>registered := False\<rparr>)"
    using r False by (auto simp: fun_upd_idem)
  ultimately show ?thesis using run inv by simp
qed

lemma removeHandler_InrD: "removeHandler r s = Inr s' \<Longrightarrow> \<exists>reg. regs s r = Some reg"
  by (cases "regs s r") (simp_all add: removeHandler_def)

lemma revoke_all_inv:
  assumes "bus_inv H s" and "set rs \<subseteq> dom (regs s)"
  shows "\<exists>s'. revoke_all rs s = Inr s' \<and> bus_inv H s' \<and>
           handlers s' = handlers s \<and> brk s' = brk s \<and> collectionMap s' = collectionMap s \<and>
           (\<forall>p. lists s' p = map_option (filter (\<lambda>x. snd x \<notin> set rs)) (lists s p)) \<and>
           (\<forall>r. regs s' r =
              map_option (\<lambda>g. g\<lparr>registered := registered g \<and> r \<notin> set rs\<rparr>) (regs s r))"
  using assms
proof (induction rs arbitrary: s)
  case Nil
  have "regs s r = map_option (\<lambda>g. g\<lparr>registered := registered g \<and> r \<notin> set []\<rparr>) (regs s r)" for r
    by (cases "regs s r") simp_all
  moreover have "lists s p = map_option (filter (\<lambda>x. snd x \<notin> set [])) (lists s p)" for p
    by (cases "lists s p") simp_all
  ultimately show ?case using Nil.prems(1) by (simp add: option.map_ident)
next
  case (Cons a rs)
  from Cons.prems obtain reg where a: "regs s a = Some reg" by auto
  from removeHandler_inv [OF Cons.prems(1) a] obtain s1 where
    s1: "removeHandler a s = Inr s1" "bus_inv H s1" "handlers s1 = handlers s" "brk s1 = brk s"
      "collectionMap s1 = collectionMap s"
      "\<And>p. lists s1 p = map_option (filter (\<lambda>x. snd x \<noteq> a)) (lists s p)"
      "regs s1 = (regs s)(a \<mapsto> reg\<lparr>registered := False\<rparr>)"
    by blast
  from Cons.prems(2) s1(7) have "set rs \<subseteq> dom (regs s1)" by auto
  from Cons.IH [OF s1(2) this] obtain s2 where
    s2: "revoke_all rs s1 = Inr s2" "bus_inv H s2" "handlers s2 = handlers s1" "brk s2 = brk s1"
      "collectionMap s2 = collectionMap s1"
      "\<And>p. lists s2 p = map_option (filter (\<lambda>x. snd x \<notin> set rs)) (lists s1 p)"
      "\<And>r. regs s2 r = map_option (\<lambda>g. g\<lparr>registered := registered g \<and> r \<notin> set rs\<rparr>) (regs s1 r)"
    by blast
  have run: "revoke_all (a # rs) s = Inr s2" using s1(1) s2(1) by simp
  have L: "lists s2 p = map_option (filter (\<lambda>x. snd x \<notin> set (a # rs))) (lists s p)" for p
  proof (cases "lists s p")
    case None
    then show ?thesis by (simp add: s2(6) s1(6))
  next
    case (Some l)
    have "filter (\<lambda>x. snd x \<notin> set rs) (filter (\<lambda>x. snd x \<noteq> a) l) =
          filter (\<lambda>x. snd x \<notin> set (a # rs)) l"
      by (induction l) auto
    with Some show ?thesis by (simp add: s2(6) s1(6))
  qed
  have R: "regs s2 r = map_option (\<lambda>g. g\<lparr>registered := registered g \<and> r \<notin> set (a # rs)\<rparr>) (regs s r)"
    for r
  proof (cases "r = a")
    case True
    with a show ?thesis by (simp add: s2(7) s1(7))
  next
    case False
    then show ?thesis by (cases "regs s r") (simp_all add: s2(7) s1(7))
  qed
  from run s2(2) s2(3-5) s1(3-5) L R show ?case by simp
qed

lemma revoke_all_InrD:
  "bus_inv H s \<Longrightarrow> revoke_all rs s = Inr s' \<Longrightarrow> set rs \<subseteq> dom (regs s)"
proof (induction rs arbitrary: s)
  case Nil
  then show ?case by simp
next
  case (Cons a rs)
  from Cons.prems(2) obtain s1 where s1: "removeHandler a s = Inr s1" "revoke_all rs s1 = Inr s'"
    by (cases "removeHandler a s") simp_all
  from removeHandler_InrD [OF s1(1)] obtain reg where a: "regs s a = Some reg" by blast
  from removeHandler_inv [OF Cons.prems(1) a] s1(1) have
    s1': "bus_inv H s1" "regs s1 = (regs s)(a \<mapsto> reg\<lparr>registered := False\<rparr>)" by auto
  from s1'(2) a have "dom (regs s1) = dom (regs s)" by auto
  with Cons.IH [OF s1'(1) s1(2)] a show ?case by auto
qed

text \<open>A dispatch that returns, on a well-formed bus.\<close>

lemma dispatch_inv:
  assumes inv: "bus_inv H s" and d: "dispatch H h e s = Inr s1"
  shows "\<exists>ho. H h = Some ho \<and> htype ho = etype e \<and> set (onEvent ho e) \<subseteq> dom (regs s) \<and>
           bus_inv H s1 \<and> handlers s1 = handlers s \<and> brk s1 = brk s \<and>
           collectionMap s1 = collectionMap s \<and>
           (\<forall>p. lists s1 p = map_option (filter (\<lambda>x. snd x \<notin> set (onEvent ho e))) (lists s p)) \<and>
           (\<forall>r. regs s1 r =
              map_option (\<lambda>g. g\<lparr>registered := registered g \<and> r \<notin> set (onEvent ho e)\<rparr>) (regs s r))"
proof -
  from d obtain ho where ho: "H h = Some ho" by (cases "H h") (simp_all add: dispatch_def)
  from d ho have ty: "htype ho = etype e" by (simp add: dispatch_def split: if_splits)
  from d ho ty have run: "revoke_all (onEvent ho e) s = Inr s1" by (simp add: dispatch_def)
  from revoke_all_InrD [OF inv run] have v: "set (onEvent ho e) \<subseteq> dom (regs s)" .
  from revoke_all_inv [OF inv v] run ho ty v show ?thesis by auto
qed

lemma collection_mem:
  "r \<in> set (collection s p) \<longleftrightarrow> (\<exists>l n. lists s p = Some l \<and> (n, r) \<in> set l)"
  by (cases "lists s p") (force simp: collection_def)+

lemma AddHandler_appends:
  assumes inv: "bus_inv H s" and h: "H h = Some ho" "htype ho = T"
    and key: "case handlers s T of None \<Rightarrow> rs = [] | Some p \<Rightarrow> rs = collection s p"
  shows "\<exists>r s1 q. AddHandler T h s = Inr (r, s1) \<and> bus_inv H s1 \<and> handlers s1 T = Some q \<and>
           collection s1 q = rs @ [r] \<and> handler_of s1 r = h \<and> regs s r = None"
proof -
  from AddHandler_body_inv [OF inv h, of 0] obtain r n p l s' where
    a: "AddHandler_body T h 0 s = Inr (r, s')" "bus_inv H s'" "handlers s' T = Some p" "p \<noteq> 0"
      "case handlers s T of None \<Rightarrow> l = []
       | Some q \<Rightarrow> if q = 0 then l = [] else q = p \<and> lists s p = Some l"
      "lists s' p = Some (l @ [(n, r)])"
      "regs s' r = Some \<lparr>handler = h, registrations = p, sender = 0, registered = True\<rparr>"
      "regs s r = None"
    by blast
  have "rs = map snd l"
  proof (cases "handlers s T")
    case None
    with a(5) key show ?thesis by simp
  next
    case (Some q)
    show ?thesis
    proof (cases "q = 0")
      case True
      with Some a(5) key bus_inv_null_list [OF inv] show ?thesis by (simp add: collection_def)
    next
      case False
      with Some a(5) key show ?thesis by (simp add: collection_def)
    qed
  qed
  with a(6) have "collection s' p = rs @ [r]" by (simp add: collection_def)
  moreover from a(7) have "handler_of s' r = h" by (simp add: handler_of_def)
  ultimately show ?thesis using a(1,2,3,8) by (simp add: AddHandler_def)
qed

lemma removeHandler_collection:
  assumes inv: "bus_inv H s" and r: "regs s r = Some reg"
  shows "\<exists>s1. removeHandler r s = Inr s1 \<and> bus_inv H s1 \<and> handlers s1 = handlers s \<and>
           (\<forall>p. collection s1 p = filter (\<lambda>x. x \<noteq> r) (collection s p)) \<and>
           regs s1 = (regs s)(r \<mapsto> reg\<lparr>registered := False\<rparr>)"
proof -
  from removeHandler_inv [OF inv r] obtain s1 where
    s1: "removeHandler r s = Inr s1" "bus_inv H s1" "handlers s1 = handlers s"
      "\<forall>p. lists s1 p = map_option (filter (\<lambda>x. snd x \<noteq> r)) (lists s p)"
      "regs s1 = (regs s)(r \<mapsto> reg\<lparr>registered := False\<rparr>)"
    by blast
  have "collection s1 p = filter (\<lambda>x. x \<noteq> r) (collection s p)" for p
    using s1(4) by (cases "lists s p") (simp_all add: collection_def filter_map comp_def)
  with s1 show ?thesis by blast
qed

lemma removeHandler_times_revoked:
  "regs s r = Some reg \<Longrightarrow> \<not> registered reg \<Longrightarrow> removeHandler_times k r s = Inr s"
  by (induction k) (simp_all add: removeHandler_def)

text \<open>A registration whose flag is cleared is in no list, so no loop dispatches through it.\<close>

lemma revoked_not_in_collection:
  assumes "bus_inv H s" and "regs s r = Some reg" and "\<not> registered reg"
  shows "r \<notin> set (collection s p)"
proof
  assume "r \<in> set (collection s p)"
  then obtain l n where l: "lists s p = Some l" "(n, r) \<in> set l" by (auto simp: collection_mem)
  from bus_inv_elem [OF assms(1) l] assms(2,3) show False by simp
qed

section \<open>The dispatch loop\<close>

lemma node_value_mid:
  "n \<notin> fst ` set pre \<Longrightarrow> node_value n (pre @ (n, r) # post) = Some r"
  by (induction pre) auto

lemma node_next_mid:
  "n \<notin> fst ` set pre \<Longrightarrow> node_next n (pre @ (n, r) # post) = Some (list_begin post)"
  by (induction pre) auto

lemma node_value_mem: "node_value n l = Some r \<Longrightarrow> (n, r) \<in> set l"
  by (induction l) (auto split: if_splits)

lemma handler_of_revoked:
  assumes "\<forall>r. regs s' r = map_option (\<lambda>g. g\<lparr>registered := registered g \<and> r \<notin> X\<rparr>) (regs s r)"
  shows "handler_of s' = handler_of s" "script_of H e s' = script_of H e s"
    "dom (regs s') = dom (regs s)"
proof -
  show h: "handler_of s' = handler_of s"
  proof
    fix r show "handler_of s' r = handler_of s r"
      using assms by (cases "regs s r") (simp_all add: handler_of_def)
  qed
  show "script_of H e s' = script_of H e s"
    by (rule ext) (simp add: script_of_def h)
  show "dom (regs s') = dom (regs s)"
    using assms by (auto simp: dom_def)
qed

lemma fire_loop_end: "fire_loop H e p None acc s = Some (Inr (acc, s))"
  by (subst fire_loop.simps) simp

lemma fire_step_InrD:
  assumes "fire_step H e p n s = Inr (d, it', s1)"
  shows "\<exists>l l'. lists s p = Some l \<and> node_value n l = Some (fst d) \<and>
           getHandler (fst d) s = Inr (snd d) \<and> dispatch H (snd d) e s = Inr s1 \<and>
           lists s1 p = Some l' \<and> node_next n l' = Some it'"
proof -
  note a = assms [unfolded fire_step_def]
  obtain l where l: "lists s p = Some l" using a by (cases "lists s p") simp_all
  note a = a [unfolded l option.case]
  obtain r where r: "node_value n l = Some r" using a by (cases "node_value n l") simp_all
  note a = a [unfolded r option.case]
  obtain h where h: "getHandler r s = Inr h" using a by (cases "getHandler r s") simp_all
  note a = a [unfolded h sum.case]
  obtain s' where s': "dispatch H h e s = Inr s'" using a by (cases "dispatch H h e s") simp_all
  note a = a [unfolded s' sum.case]
  obtain l' where l': "lists s' p = Some l'" using a by (cases "lists s' p") simp_all
  note a = a [unfolded l' option.case]
  obtain i where i: "node_next n l' = Some i" using a by (cases "node_next n l'") simp_all
  note a = a [unfolded i option.case]
  from a have "d = (r, h)" "it' = i" "s1 = s'" by simp_all
  with l r h s' l' i show ?thesis by simp
qed

text \<open>A round of the loop that returns, on a well-formed bus.\<close>

lemma fire_step_inv:
  assumes inv: "bus_inv H s" and st: "fire_step H e p n s = Inr (d, it', s1)"
  shows "\<exists>l X. lists s p = Some l \<and> (n, fst d) \<in> set l \<and> snd d = handler_of s (fst d) \<and>
           X = set (script_of H e s (fst d)) \<and>
           (\<exists>ho. H (snd d) = Some ho \<and> htype ho = etype e) \<and>
           bus_inv H s1 \<and> handlers s1 = handlers s \<and> brk s1 = brk s \<and>
           collectionMap s1 = collectionMap s \<and>
           (\<forall>p. lists s1 p = map_option (filter (\<lambda>x. snd x \<notin> X)) (lists s p)) \<and>
           (\<forall>r. regs s1 r = map_option (\<lambda>g. g\<lparr>registered := registered g \<and> r \<notin> X\<rparr>) (regs s r))"
proof -
  from fire_step_InrD [OF st] obtain l l' where
    a: "lists s p = Some l" "node_value n l = Some (fst d)" "getHandler (fst d) s = Inr (snd d)"
      "dispatch H (snd d) e s = Inr s1" by blast
  from a(3) have h: "snd d = handler_of s (fst d)"
    by (cases "regs s (fst d)") (simp_all add: getHandler_def handler_of_def)
  from dispatch_inv [OF inv a(4)] obtain ho where
    ho: "H (snd d) = Some ho" "htype ho = etype e"  "bus_inv H s1" "handlers s1 = handlers s"
      "brk s1 = brk s" "collectionMap s1 = collectionMap s"
      "\<forall>p. lists s1 p = map_option (filter (\<lambda>x. snd x \<notin> set (onEvent ho e))) (lists s p)"
      "\<forall>r. regs s1 r =
              map_option (\<lambda>g. g\<lparr>registered := registered g \<and> r \<notin> set (onEvent ho e)\<rparr>) (regs s r)"
    by blast
  have sc: "script_of H e s (fst d) = onEvent ho e"
    using ho(1) h by (simp add: script_of_def)
  from a(1) node_value_mem [OF a(2)] h ho show ?thesis unfolding sc by blast
qed

lemma fire_loop_rule:
  assumes run: "fire_loop H e p it acc s = Some (Inr (tr, s'))" and init: "I acc s"
    and step: "\<And>n acc s d it' s1. I acc s \<Longrightarrow> fire_step H e p n s = Inr (d, it', s1) \<Longrightarrow>
                 I (acc @ [d]) s1"
  shows "I tr s'"
proof -
  define P where "P = (\<lambda>H' e' p' (it :: addr option) acc s
       (y :: error + (addr \<times> addr) list \<times> EventBus).
     H' = H \<longrightarrow> e' = e \<longrightarrow> p' = p \<longrightarrow> I acc s \<longrightarrow> (\<forall>tr s'. y = Inr (tr, s') \<longrightarrow> I tr s'))"
  have "P H e p it acc s (Inr (tr, s'))"
  proof (rule fire_loop.raw_induct [where P = P, OF _ run])
    fix fire H' e' p' it acc s y
    assume IH: "\<And>H e p it acc s y. fire H e p it acc s = Some y \<Longrightarrow> P H e p it acc s y"
    assume body: "(case it of
        None \<Rightarrow> Some (Inr (acc, s))
      | Some n \<Rightarrow>
          (case fire_step H' e' p' n s of
             Inl x \<Rightarrow> Some (Inl x)
           | Inr d \<Rightarrow> fire H' e' p' (fst (snd d)) (acc @ [fst d]) (snd (snd d)))) = Some y"
    show "P H' e' p' it acc s y"
      unfolding P_def
    proof (intro impI allI)
      fix tr s'
      assume eq: "H' = H" "e' = e" "p' = p" and I: "I acc s" and y: "y = Inr (tr, s')"
      show "I tr s'"
      proof (cases it)
        case None
        with body y I show ?thesis by simp
      next
        case (Some n)
        note b = body [unfolded Some option.case]
        obtain d where d: "fire_step H' e' p' n s = Inr d"
          using b y by (cases "fire_step H' e' p' n s") simp_all
        from b have run': "fire H' e' p' (fst (snd d)) (acc @ [fst d]) (snd (snd d)) = Some y"
          unfolding d by simp
        from d have "fire_step H e p n s = Inr (fst d, fst (snd d), snd (snd d))"
          by (simp add: eq)
        from step [OF I this] have "I (acc @ [fst d]) (snd (snd d))" .
        with IH [OF run'] eq y show ?thesis by (simp add: P_def)
      qed
    qed
  qed
  with init show ?thesis by (simp add: P_def)
qed

lemma sweep_map_filter:
  "filter (\<lambda>r'. r' \<notin> X) (map snd l) = map snd (filter (\<lambda>x. snd x \<notin> X) l)"
  by (induction l) auto

lemma sweep_quiet: "\<forall>r \<in> set rs. set (sc r) \<inter> set rs = {} \<Longrightarrow> sweep sc rs = rs"
proof (induction rs)
  case Nil
  then show ?case by simp
next
  case (Cons a rs)
  from Cons.prems have "\<forall>r' \<in> set rs. r' \<notin> set (sc a)" by auto
  then have f: "filter (\<lambda>r'. r' \<notin> set (sc a)) rs = rs" by (simp add: filter_id_conv)
  from Cons.prems have "\<forall>r \<in> set rs. set (sc r) \<inter> set rs = {}" by auto
  with Cons.IH f show ?case by simp
qed

lemma sweep_keeps:
  "r \<in> set rs \<Longrightarrow> \<forall>r' \<in> set rs. r \<notin> set (sc r') \<Longrightarrow> r \<in> set (sweep sc rs)"
proof (induction sc rs rule: sweep.induct)
  case (1 sc)
  then show ?case by simp
next
  case (2 sc a rs)
  show ?case
  proof (cases "r = a")
    case True
    then show ?thesis by simp
  next
    case False
    with 2(2,3) have "r \<in> set (filter (\<lambda>r'. r' \<notin> set (sc a)) rs)" by auto
    moreover from 2(3) have "\<forall>r' \<in> set (filter (\<lambda>r'. r' \<notin> set (sc a)) rs). r \<notin> set (sc r')"
      by auto
    ultimately show ?thesis using 2(1) by simp
  qed
qed

text \<open>
  The loop on a well-formed bus, when no handler that is reached revokes the registration
  it is being dispatched through: the loop finishes, and it has dispatched to the
  registrations of \<open>sweep\<close>, in that order.
\<close>

lemma fire_loop_sweep:
  assumes "bus_inv H s" and "handlers s (etype e) = Some p"
    and "lists s p = Some (pre @ (n, r) # post)"
    and "\<forall>r' \<in> set (r # map snd post).
           set (script_of H e s r') \<subseteq> dom (regs s) \<and> r' \<notin> set (script_of H e s r')"
  shows "\<exists>s'. fire_loop H e p (Some n) acc s =
             Some (Inr (acc @ map (\<lambda>r. (r, handler_of s r))
                                (sweep (script_of H e s) (r # map snd post)), s')) \<and>
           bus_inv H s' \<and> handlers s' = handlers s \<and> brk s' = brk s \<and>
           collectionMap s' = collectionMap s \<and> dom (regs s') = dom (regs s) \<and>
           handler_of s' = handler_of s"
  using assms
proof (induction "length post" arbitrary: s pre n r post acc rule: less_induct)
  case less
  note inv = less.prems(1) and key = less.prems(2) and l = less.prems(3) and ok = less.prems(4)
  from bus_inv_list [OF inv l] have npre: "n \<notin> fst ` set pre" by auto
  from bus_inv_elem [OF inv l, of "(n, r)"] obtain reg where
    reg: "regs s r = Some reg" "registrations reg = p" "registered reg" by auto
  from bus_inv_typed [OF inv reg(1), of "etype e"] key reg(2) obtain ho where
    ho: "H (handler reg) = Some ho" "htype ho = etype e" by auto
  have sc: "script_of H e s r = onEvent ho e" and hr: "handler_of s r = handler reg"
    by (simp_all add: script_of_def handler_of_def reg ho)
  from ok sc have valid: "set (onEvent ho e) \<subseteq> dom (regs s)" "r \<notin> set (onEvent ho e)"
    by auto
  from revoke_all_inv [OF inv valid(1)] obtain s1 where
    s1: "revoke_all (onEvent ho e) s = Inr s1" "bus_inv H s1" "handlers s1 = handlers s"
      "brk s1 = brk s" "collectionMap s1 = collectionMap s"
      "\<And>p. lists s1 p = map_option (filter (\<lambda>x. snd x \<notin> set (onEvent ho e))) (lists s p)"
      "\<forall>r. regs s1 r =
         map_option (\<lambda>g. g\<lparr>registered := registered g \<and> r \<notin> set (onEvent ho e)\<rparr>) (regs s r)"
    by blast
  note same = handler_of_revoked [OF s1(7)]
  have disp: "dispatch H (handler reg) e s = Inr s1"
    by (simp add: dispatch_def ho s1(1))
  define f where "f = (\<lambda>x::addr \<times> addr. snd x \<notin> set (onEvent ho e))"
  have l1: "lists s1 p = Some (filter f pre @ (n, r) # filter f post)"
    using l valid(2) by (simp add: s1(6) f_def)
  have npre1: "n \<notin> fst ` set (filter f pre)" using npre by auto
  have step: "fire_loop H e p (Some n) acc s =
        fire_loop H e p (list_begin (filter f post)) (acc @ [(r, handler reg)]) s1"
    by (subst fire_loop.simps)
       (simp add: fire_step_def l node_value_mid [OF npre] getHandler_def reg disp l1
          node_next_mid [OF npre1])
  have sw: "sweep (script_of H e s) (r # map snd post) =
        r # sweep (script_of H e s) (map snd (filter f post))"
    by (simp add: sc sweep_map_filter f_def)
  show ?case
  proof (cases "filter f post")
    case Nil
    have "fire_loop H e p (Some n) acc s = Some (Inr (acc @ [(r, handler reg)], s1))"
      by (simp add: step Nil list_begin_def fire_loop_end)
    moreover have "sweep (script_of H e s) (r # map snd post) = [r]"
      unfolding sw Nil by simp
    ultimately show ?thesis using s1(2-5) same hr by simp
  next
    case (Cons x post2)
    obtain n2 r2 where x: "x = (n2, r2)" by (cases x)
    have len: "length post2 < length post"
      using length_filter_le [of f post] Cons by simp
    have l2: "lists s1 p = Some ((filter f pre @ [(n, r)]) @ (n2, r2) # post2)"
      using l1 Cons x by simp
    have sub: "set (r2 # map snd post2) \<subseteq> set (map snd post)"
    proof -
      have "set (r2 # map snd post2) = snd ` set (filter f post)" by (simp add: Cons x)
      then show ?thesis by auto
    qed
    have ok1: "\<forall>r' \<in> set (r2 # map snd post2).
           set (script_of H e s1 r') \<subseteq> dom (regs s1) \<and> r' \<notin> set (script_of H e s1 r')"
    proof
      fix r' assume "r' \<in> set (r2 # map snd post2)"
      with sub have "r' \<in> set (r # map snd post)" by auto
      with ok show "set (script_of H e s1 r') \<subseteq> dom (regs s1) \<and> r' \<notin> set (script_of H e s1 r')"
        unfolding same by blast
    qed
    from less.hyps [OF len s1(2) _ l2 ok1, of "acc @ [(r, handler reg)]"] key s1(3)
    obtain s' where
      s': "fire_loop H e p (Some n2) (acc @ [(r, handler reg)]) s1 =
             Some (Inr ((acc @ [(r, handler reg)]) @ map (\<lambda>r. (r, handler_of s1 r))
                                (sweep (script_of H e s1) (r2 # map snd post2)), s'))"
        "bus_inv H s'" "handlers s' = handlers s1" "brk s' = brk s1"
        "collectionMap s' = collectionMap s1" "dom (regs s') = dom (regs s1)"
        "handler_of s' = handler_of s1"
      by auto
    have "fire_loop H e p (Some n) acc s =
        Some (Inr (acc @ map (\<lambda>r. (r, handler_of s r))
                                (sweep (script_of H e s) (r # map snd post)), s'))"
      unfolding step sw using s'(1) by (simp add: Cons x list_begin_def same hr)
    then show ?thesis using s'(2-7) s1(3-5) same by simp
  qed
qed

text \<open>
  What a run of the loop that returns has dispatched through, on a well-formed bus:
  registrations that the list held when the loop began, each with the handler stored in
  it, a live handler object for the type of the event.
\<close>

lemma fire_loop_within:
  assumes inv: "bus_inv H s" and run: "fire_loop H e p it [] s = Some (Inr (tr, s'))"
  shows "\<forall>d \<in> set tr. fst d \<in> set (collection s p) \<and> snd d = handler_of s (fst d) \<and>
           (\<exists>ho. H (snd d) = Some ho \<and> htype ho = etype e)"
proof -
  define I where "I = (\<lambda>acc s1. bus_inv H s1 \<and> set (collection s1 p) \<subseteq> set (collection s p) \<and>
      handler_of s1 = handler_of s \<and>
      (\<forall>d \<in> set acc. fst d \<in> set (collection s p) \<and> snd d = handler_of s (fst d) \<and>
           (\<exists>ho. H (snd d) = Some ho \<and> htype ho = etype e)))"
  have "I tr s'"
  proof (rule fire_loop_rule [OF run, of I])
    show "I [] s" using inv by (simp add: I_def)
  next
    fix n acc s1 d it' s2
    assume I: "I acc s1" and st: "fire_step H e p n s1 = Inr (d, it', s2)"
    from I have inv1: "bus_inv H s1" by (simp add: I_def)
    from fire_step_inv [OF inv1 st] obtain l X where
      a: "lists s1 p = Some l" "(n, fst d) \<in> set l" "snd d = handler_of s1 (fst d)"
        "\<exists>ho. H (snd d) = Some ho \<and> htype ho = etype e" "bus_inv H s2"
        "\<forall>p. lists s2 p = map_option (filter (\<lambda>x. snd x \<notin> X)) (lists s1 p)"
        "\<forall>r. regs s2 r = map_option (\<lambda>g. g\<lparr>registered := registered g \<and> r \<notin> X\<rparr>) (regs s1 r)"
      by blast
    from a(1,2) have m: "fst d \<in> set (collection s1 p)" by (auto simp: collection_mem)
    from a(1,6) have "set (collection s2 p) \<subseteq> set (collection s1 p)"
      by (auto simp: collection_def)
    with I m a(3,4,5) handler_of_revoked(1) [OF a(7)] show "I (acc @ [d]) s2"
      by (auto simp: I_def)
  qed
  then show ?thesis unfolding I_def by blast
qed

lemma FireEvent_None:
  "handlers s (etype e) = None \<Longrightarrow>
   FireEvent H e s = Some (Inr ([], s\<lparr>handlers := (handlers s)(etype e \<mapsto> 0)\<rparr>))"
  by (simp add: FireEvent_def handlers_index_def)

lemma FireEvent_null:
  "handlers s (etype e) = Some 0 \<Longrightarrow> FireEvent H e s = Some (Inr ([], s))"
  by (simp add: FireEvent_def handlers_index_def)

lemma FireEvent_Some:
  "handlers s (etype e) = Some p \<Longrightarrow> p \<noteq> 0 \<Longrightarrow>
   FireEvent H e s =
     (case lists s p of
        None \<Rightarrow> Some (Inl InvalidPointer)
      | Some l \<Rightarrow> fire_loop H e p (list_begin l) [] s)"
  by (simp add: FireEvent_def handlers_index_def)


text \<open>
  \<open>FireEvent\<close> on a well-formed bus, when no handler of the collection revokes its own
  registration and every handle that a handler revokes is a registration handle.
\<close>

lemma FireEvent_sweep:
  assumes inv: "bus_inv H s" and key: "handlers s (etype e) = Some p"
    and ok: "\<forall>r \<in> set (collection s p).
               set (script_of H e s r) \<subseteq> dom (regs s) \<and> r \<notin> set (script_of H e s r)"
  shows "\<exists>s'. FireEvent H e s =
             Some (Inr (map (\<lambda>r. (r, handler_of s r))
                          (sweep (script_of H e s) (collection s p)), s')) \<and>
           bus_inv H s' \<and> handlers s' = handlers s \<and> brk s' = brk s \<and>
           collectionMap s' = collectionMap s \<and> dom (regs s') = dom (regs s)"
proof (cases "p = 0")
  case True
  with bus_inv_null_list [OF inv] have "collection s p = []" by (simp add: collection_def)
  with FireEvent_null [of s e H] key True inv show ?thesis by simp
next
  case False
  from bus_inv_handlers [OF inv key False] obtain l where l: "lists s p = Some l" by blast
  show ?thesis
  proof (cases l)
    case Nil
    with l have "collection s p = []" by (simp add: collection_def)
    moreover from FireEvent_Some [OF key False, of H] l Nil
    have "FireEvent H e s = Some (Inr ([], s))" by (simp add: list_begin_def fire_loop_end)
    ultimately show ?thesis using inv by simp
  next
    case (Cons x post)
    obtain n r where x: "x = (n, r)" by (cases x)
    from l Cons x have l': "lists s p = Some ([] @ (n, r) # post)"
      and c: "collection s p = r # map snd post" by (simp_all add: collection_def)
    from fire_loop_sweep [OF inv key l' ok [unfolded c], of "[]"]
    obtain s' where
      "fire_loop H e p (Some n) [] s =
         Some (Inr (map (\<lambda>r. (r, handler_of s r)) (sweep (script_of H e s) (r # map snd post)), s'))"
      "bus_inv H s'" "handlers s' = handlers s" "brk s' = brk s"
      "collectionMap s' = collectionMap s" "dom (regs s') = dom (regs s)"
      by auto
    moreover from FireEvent_Some [OF key False, of H] l Cons x
    have "FireEvent H e s = fire_loop H e p (Some n) [] s" by (simp add: list_begin_def)
    ultimately show ?thesis unfolding c by simp
  qed
qed

lemma FireEvent_within:
  assumes inv: "bus_inv H s" and run: "FireEvent H e s = Some (Inr (tr, s'))"
  shows "\<forall>d \<in> set tr. (\<exists>p. handlers s (etype e) = Some p \<and> fst d \<in> set (collection s p)) \<and>
           snd d = handler_of s (fst d) \<and> (\<exists>ho. H (snd d) = Some ho \<and> htype ho = etype e)"
proof (cases "handlers s (etype e)")
  case None
  from run FireEvent_None [OF None, of H] show ?thesis by auto
next
  case (Some p)
  show ?thesis
  proof (cases "p = 0")
    case True
    with run Some FireEvent_null [of s e H] show ?thesis by simp
  next
    case False
    from run FireEvent_Some [OF Some False, of H] obtain l where
      "fire_loop H e p (list_begin l) [] s = Some (Inr (tr, s'))"
      by (cases "lists s p") simp_all
    from fire_loop_within [OF inv this] Some show ?thesis by blast
  qed
qed

text \<open>
  A property that the null entry made by \<open>operator[]\<close> and every dispatch that returns
  keep is kept by every \<open>FireEvent\<close> that returns.
\<close>

lemma FireEvent_rule:
  assumes run: "FireEvent H e s = Some (Inr (tr, s'))" and init: "I s"
    and null: "\<And>s0. I s0 \<Longrightarrow> handlers s0 (etype e) = None \<Longrightarrow>
                 I (s0\<lparr>handlers := (handlers s0)(etype e \<mapsto> 0)\<rparr>)"
    and step: "\<And>s0 h s1. I s0 \<Longrightarrow> dispatch H h e s0 = Inr s1 \<Longrightarrow> I s1"
  shows "I s'"
proof (cases "handlers s (etype e)")
  case None
  from run FireEvent_None [OF None, of H] null [OF init None] show ?thesis by simp
next
  case (Some p)
  show ?thesis
  proof (cases "p = 0")
    case True
    with run Some FireEvent_null [of s e H] init show ?thesis by simp
  next
    case False
    from run FireEvent_Some [OF Some False, of H] obtain l where
      loop: "fire_loop H e p (list_begin l) [] s = Some (Inr (tr, s'))"
      by (cases "lists s p") simp_all
    show ?thesis
    proof (rule fire_loop_rule [OF loop, of "\<lambda>acc. I"])
      show "I s" by (rule init)
    next
      fix n acc s0 d it' s1
      assume "I s0" "fire_step H e p n s0 = Inr (d, it', s1)"
      with fire_step_InrD [of H e p n s0 d it' s1] step [of s0 "snd d" s1]
      show "I s1" by blast
    qed
  qed
qed

lemma FireEvent_inv:
  assumes "bus_inv H s" and "FireEvent H e s = Some (Inr (tr, s'))"
  shows "bus_inv H s'"
proof (rule FireEvent_rule [OF assms(2), of "bus_inv H"])
  show "bus_inv H s" by (rule assms(1))
next
  fix s0 assume "bus_inv H s0" "handlers s0 (etype e) = None"
  then show "bus_inv H (s0\<lparr>handlers := (handlers s0)(etype e \<mapsto> 0)\<rparr>)"
    by (rule bus_inv_null_entry)
next
  fix s0 h s1 assume "bus_inv H s0" "dispatch H h e s0 = Inr s1"
  from dispatch_inv [OF this] show "bus_inv H s1" by blast
qed

lemma revoked_never_dispatched:
  assumes "bus_inv H s" and "regs s r = Some reg" and "\<not> registered reg"
    and "FireEvent H e s = Some (Inr (tr, s'))"
  shows "r \<notin> fst ` set tr"
  using FireEvent_within [OF assms(1,4)] revoked_not_in_collection [OF assms(1-3)] by auto


lemma removeHandler_collectionMap:
  "removeHandler r s = Inr s' \<Longrightarrow> collectionMap s' = collectionMap s"
  by (auto simp: removeHandler_def split: option.splits if_splits)

lemma revoke_all_collectionMap:
  "revoke_all rs s = Inr s' \<Longrightarrow> collectionMap s' = collectionMap s"
proof (induction rs arbitrary: s)
  case Nil
  then show ?case by simp
next
  case (Cons a rs)
  from Cons.prems obtain s1 where s1: "removeHandler a s = Inr s1" "revoke_all rs s1 = Inr s'"
    by (cases "removeHandler a s") simp_all
  from Cons.IH [OF s1(2)] removeHandler_collectionMap [OF s1(1)] show ?case by simp
qed

lemma dispatch_collectionMap:
  "dispatch H h e s = Inr s' \<Longrightarrow> collectionMap s' = collectionMap s"
  by (cases "H h") (auto simp: dispatch_def split: if_splits dest: revoke_all_collectionMap)

lemma fire_loop_collectionMap:
  assumes "fire_loop H e p it acc s = Some (Inr (tr, s'))"
  shows "collectionMap s' = collectionMap s"
proof (rule fire_loop_rule [OF assms, of "\<lambda>acc s1. collectionMap s1 = collectionMap s"])
  show "collectionMap s = collectionMap s" ..
next
  fix n acc s0 d it' s1
  assume "collectionMap s0 = collectionMap s" "fire_step H e p n s0 = Inr (d, it', s1)"
  with fire_step_InrD [of H e p n s0 d it' s1] dispatch_collectionMap [of H "snd d" e s0 s1]
  show "collectionMap s1 = collectionMap s" by auto
qed

lemma FireEvent_collectionMap:
  assumes "FireEvent H e s = Some (Inr (tr, s'))"
  shows "collectionMap s' = collectionMap s"
proof (cases "handlers s (etype e)")
  case None
  from assms FireEvent_None [OF None, of H] show ?thesis by auto
next
  case (Some p)
  show ?thesis
  proof (cases "p = 0")
    case True
    with assms Some FireEvent_null [of s e H] show ?thesis by simp
  next
    case False
    from assms FireEvent_Some [OF Some False, of H] obtain l where
      "fire_loop H e p (list_begin l) [] s = Some (Inr (tr, s'))"
      by (cases "lists s p") simp_all
    from fire_loop_collectionMap [OF this] show ?thesis .
  qed
qed

lemma node_next_erased: "n \<notin> fst ` set l \<Longrightarrow> node_next n l = None"
  by (induction l) auto

text \<open>
  A handler that revokes the registration it is dispatched through always leaves the loop
  with an iterator to an erased node.
\<close>

lemma fire_step_self_removal:
  assumes inv: "bus_inv H s" and key: "handlers s (etype e) = Some p"
    and l: "lists s p = Some l" and n: "node_value n l = Some r"
    and v: "set (script_of H e s r) \<subseteq> dom (regs s)" and self: "r \<in> set (script_of H e s r)"
  shows "fire_step H e p n s = Inl InvalidIterator"
proof -
  from node_value_mem [OF n] have m: "(n, r) \<in> set l" .
  from bus_inv_elem [OF inv l m] obtain reg where
    reg: "regs s r = Some reg" "registrations reg = p" by auto
  from bus_inv_typed [OF inv reg(1), of "etype e"] key reg(2) obtain ho where
    ho: "H (handler reg) = Some ho" "htype ho = etype e" by auto
  have sc: "script_of H e s r = onEvent ho e"
    by (simp add: script_of_def handler_of_def reg ho)
  from revoke_all_inv [OF inv v [unfolded sc]] obtain s1 where
    s1: "revoke_all (onEvent ho e) s = Inr s1"
      "\<And>p. lists s1 p = map_option (filter (\<lambda>x. snd x \<notin> set (onEvent ho e))) (lists s p)"
    by blast
  have disp: "dispatch H (handler reg) e s = Inr s1" by (simp add: dispatch_def ho s1(1))
  have l1: "lists s1 p = Some (filter (\<lambda>x. snd x \<notin> set (onEvent ho e)) l)"
    by (simp add: s1(2) l)
  have "n \<notin> fst ` set (filter (\<lambda>x. snd x \<notin> set (onEvent ho e)) l)"
  proof
    assume "n \<in> fst ` set (filter (\<lambda>x. snd x \<notin> set (onEvent ho e)) l)"
    then obtain r' where r': "(n, r') \<in> set l" "r' \<notin> set (onEvent ho e)" by auto
    from bus_inv_list [OF inv l] have "distinct (map fst l)" by simp
    with m r'(1) have "r' = r" by (meson eq_key_imp_eq_value)
    with r'(2) self sc show False by simp
  qed
  from node_next_erased [OF this] show ?thesis
    by (simp add: fire_step_def l n getHandler_def reg disp l1)
qed

lemma dispatch_all_append:
  "dispatch_all H e (hs @ [h]) s =
     (case dispatch_all H e hs s of Inl x \<Rightarrow> Inl x | Inr s1 \<Rightarrow> dispatch H h e s1)"
proof (induction hs arbitrary: s)
  case Nil
  show ?case by (cases "dispatch H h e s") simp_all
next
  case (Cons a hs)
  show ?case by (cases "dispatch H a e s") (simp_all add: Cons.IH)
qed

text \<open>
  The bus that a run of the loop leaves is what the dispatches to the handlers of its
  trace, in the order of the trace, make of the bus it began on.
\<close>

lemma fire_loop_state:
  assumes run: "fire_loop H e p it [] s = Some (Inr (tr, s'))"
  shows "dispatch_all H e (map snd tr) s = Inr s'"
proof (rule fire_loop_rule [OF run,
      of "\<lambda>(acc :: (addr \<times> addr) list) s1. dispatch_all H e (map snd acc) s = Inr s1"])
  show "dispatch_all H e (map snd []) s = Inr s" by simp
next
  fix n and acc :: "(addr \<times> addr) list" and s0 d it' s1
  assume I: "dispatch_all H e (map snd acc) s = Inr s0"
    and st: "fire_step H e p n s0 = Inr (d, it', s1)"
  from fire_step_InrD [OF st] have "dispatch H (snd d) e s0 = Inr s1" by blast
  with I show "dispatch_all H e (map snd (acc @ [d])) s = Inr s1"
    by (simp add: dispatch_all_append)
qed

lemma FireEvent_state:
  assumes run: "FireEvent H e s = Some (Inr (tr, s'))" and key: "handlers s (etype e) = Some p"
  shows "dispatch_all H e (map snd tr) s = Inr s'"
proof (cases "p = 0")
  case True
  with run key FireEvent_null [of s e H] show ?thesis by simp
next
  case False
  from run FireEvent_Some [OF key False, of H] obtain l where
    "fire_loop H e p (list_begin l) [] s = Some (Inr (tr, s'))"
    by (cases "lists s p") simp_all
  from fire_loop_state [OF this] show ?thesis .
qed

text \<open>
  \<open>FireEvent\<close> on a well-formed bus whose handlers for the type of the event revoke no
  registration of the collection: it returns, it has dispatched through every registration
  of the collection, in list order, and it leaves the bus that running these handlers one
  after the other gives.
\<close>

lemma FireEvent_quiet:
  assumes inv: "bus_inv H s" and key: "handlers s (etype e) = Some p"
    and quiet: "\<forall>r \<in> set (collection s p).
           set (script_of H e s r) \<subseteq> dom (regs s) \<and>
           set (script_of H e s r) \<inter> set (collection s p) = {}"
  shows "\<exists>s'. FireEvent H e s =
            Some (Inr (map (\<lambda>r. (r, handler_of s r)) (collection s p), s')) \<and>
           dispatch_all H e (map (handler_of s) (collection s p)) s = Inr s' \<and> bus_inv H s'"
proof -
  from quiet have ok: "\<forall>r \<in> set (collection s p).
      set (script_of H e s r) \<subseteq> dom (regs s) \<and> r \<notin> set (script_of H e s r)" by auto
  from quiet have sw: "sweep (script_of H e s) (collection s p) = collection s p"
    by (intro sweep_quiet) simp
  from FireEvent_sweep [OF inv key ok] obtain s' where
    s': "FireEvent H e s = Some (Inr (map (\<lambda>r. (r, handler_of s r)) (collection s p), s'))"
      "bus_inv H s'"
    unfolding sw by blast
  from FireEvent_state [OF s'(1) key]
  have "dispatch_all H e (map (handler_of s) (collection s p)) s = Inr s'"
    by (simp add: comp_def)
  with s' show ?thesis by blast
qed

section \<open>What the operations keep\<close>

lemma extends_refl: "extends s s"
  by (simp add: extends_def)

lemma extends_trans:
  assumes "extends s s1" and "extends s1 s2"
  shows "extends s s2"
  unfolding extends_def
proof (intro conjI allI impI)
  fix A p assume "handlers s A = Some p" "p \<noteq> 0"
  with assms show "handlers s2 A = Some p" unfolding extends_def by blast
next
  fix r reg assume "regs s r = Some reg"
  with assms(1) obtain reg1 where r1: "regs s1 r = Some reg1" "handler reg1 = handler reg"
    "registrations reg1 = registrations reg" "registered reg1 \<longrightarrow> registered reg"
    unfolding extends_def by blast
  from assms(2) r1(1) obtain reg2 where "regs s2 r = Some reg2" "handler reg2 = handler reg1"
    "registrations reg2 = registrations reg1" "registered reg2 \<longrightarrow> registered reg1"
    unfolding extends_def by blast
  with r1 show "\<exists>reg'. regs s2 r = Some reg' \<and> handler reg' = handler reg \<and>
      registrations reg' = registrations reg \<and> (registered reg' \<longrightarrow> registered reg)"
    by simp
qed

lemma handlers_index_extends:
  "extends s (snd (handlers_index k s))"
  by (cases "handlers s k") (auto simp: handlers_index_def extends_def)

lemma AddHandler_body_extends:
  assumes inv: "bus_inv H s" and run: "AddHandler_body T h sv s = Inr (r, s')"
  shows "extends s s'"
proof -
  obtain p0 s1 where hi: "handlers_index T s = (p0, s1)" by (cases "handlers_index T s")
  have e1: "extends s s1" using handlers_index_extends [of s T] hi by simp
  have k1: "handlers s1 T = Some p0" and b1: "brk s1 = brk s" and r1: "regs s1 = regs s"
    using hi by (cases "handlers s T"; auto simp: handlers_index_def)+
  have fr: "regs s (brk s) = None" "regs s (Suc (brk s)) = None"
    using bus_inv_fresh_reg [OF inv] by simp_all
  have "extends s1 s'"
  proof (cases "p0 = 0")
    case True
    with run hi have s': "handlers s' = (handlers s1)(T \<mapsto> brk s1)"
      "regs s' = (regs s1)(Suc (brk s1) \<mapsto>
          \<lparr>handler = h, registrations = brk s1, sender = sv, registered = True\<rparr>)"
      by (auto simp: AddHandler_body_def)
    show ?thesis
      unfolding extends_def s' using k1 True fr by (auto simp: b1 r1)
  next
    case False
    with run hi obtain l where "lists s1 p0 = Some l"
      by (cases "lists s1 p0") (simp_all add: AddHandler_body_def)
    with run hi False have s': "handlers s' = handlers s1"
      "regs s' = (regs s1)(brk s1 \<mapsto>
          \<lparr>handler = h, registrations = p0, sender = sv, registered = True\<rparr>)"
      by (auto simp: AddHandler_body_def)
    show ?thesis
      unfolding extends_def s' using fr by (auto simp: b1 r1)
  qed
  with e1 show ?thesis by (rule extends_trans)
qed

lemma removeHandler_extends: "removeHandler r s = Inr s' \<Longrightarrow> extends s s'"
  by (auto simp: removeHandler_def extends_def split: option.splits if_splits)

lemma revoke_all_extends: "revoke_all rs s = Inr s' \<Longrightarrow> extends s s'"
proof (induction rs arbitrary: s)
  case Nil
  then show ?case by (simp add: extends_refl)
next
  case (Cons a rs)
  from Cons.prems obtain s1 where s1: "removeHandler a s = Inr s1" "revoke_all rs s1 = Inr s'"
    by (cases "removeHandler a s") simp_all
  from removeHandler_extends [OF s1(1)] Cons.IH [OF s1(2)] show ?case by (rule extends_trans)
qed

lemma dispatch_extends: "dispatch H h e s = Inr s' \<Longrightarrow> extends s s'"
  by (cases "H h") (auto simp: dispatch_def split: if_splits dest: revoke_all_extends)

lemma FireEvent_extends:
  assumes "FireEvent H e s = Some (Inr (tr, s'))"
  shows "extends s s'"
proof (rule FireEvent_rule [OF assms, of "extends s"])
  show "extends s s" by (rule extends_refl)
next
  fix s0 assume "extends s s0" "handlers s0 (etype e) = None"
  moreover have "extends s0 (s0\<lparr>handlers := (handlers s0)(etype e \<mapsto> 0)\<rparr>)"
    using handlers_index_extends [of s0 "etype e"] \<open>handlers s0 (etype e) = None\<close>
    by (simp add: handlers_index_def)
  ultimately show "extends s (s0\<lparr>handlers := (handlers s0)(etype e \<mapsto> 0)\<rparr>)"
    by (blast intro: extends_trans)
next
  fix s0 h s1 assume "extends s s0" "dispatch H h e s0 = Inr s1"
  then show "extends s s1" by (blast intro: extends_trans dispatch_extends)
qed

text \<open>Every bus reached from a well-formed bus is well-formed, and it extends that bus.\<close>

lemma later_inv:
  assumes "later H s s'" and "bus_inv H s"
  shows "bus_inv H s' \<and> extends s s'"
  using assms
proof (induction rule: later.induct)
  case later_now
  then show ?case by (simp add: extends_refl)
next
  case (later_AddHandler s1 h ho T r s2)
  then have inv1: "bus_inv H s1" and e1: "extends s s1" by simp_all
  from AddHandler_inv [OF inv1 later_AddHandler(2,3,4)]
    AddHandler_body_extends [OF inv1 later_AddHandler(4) [unfolded AddHandler_def]] e1
  show ?case by (blast intro: extends_trans)
next
  case (later_AddHandler_sender s1 h ho T a slot r s2)
  then have inv1: "bus_inv H s1" and e1: "extends s s1" by simp_all
  from AddHandler_sender_inv [OF inv1 later_AddHandler_sender(2,3,4)]
    AddHandler_body_extends [OF inv1 later_AddHandler_sender(4) [unfolded AddHandler_sender_def]] e1
  show ?case by (blast intro: extends_trans)
next
  case (later_removeHandler s1 r s2)
  then have inv1: "bus_inv H s1" and e1: "extends s s1" by simp_all
  from removeHandler_InrD [OF later_removeHandler(2)] obtain reg where "regs s1 r = Some reg"
    by blast
  from removeHandler_inv [OF inv1 this] later_removeHandler(2)
    removeHandler_extends [OF later_removeHandler(2)] e1
  show ?case by (auto intro: extends_trans)
next
  case (later_FireEvent s1 e tr s2)
  then have inv1: "bus_inv H s1" and e1: "extends s s1" by simp_all
  from FireEvent_inv [OF inv1 later_FireEvent(2)] FireEvent_extends [OF later_FireEvent(2)] e1
  show ?case by (blast intro: extends_trans)
qed

text \<open>Every bus built from a new bus with the operations is well-formed.\<close>

lemma later_init_inv: "later H EventBus_init s \<Longrightarrow> bus_inv H s"
  using later_inv [OF _ bus_inv_init] by blast

section \<open>The sender field is not read\<close>

lemma set_senders_simps [simp]:
  "handlers (set_senders f s) = handlers s"
  "lists (set_senders f s) = lists s"
  "brk (set_senders f s) = brk s"
  "collectionMap (set_senders f s) = collectionMap s"
  "regs (set_senders f s) r = map_option (\<lambda>g. g\<lparr>sender := f r\<rparr>) (regs s r)"
  by (simp_all add: set_senders_def)

lemma set_senders_twice: "set_senders f (set_senders g s) = set_senders f s"
proof -
  have "(\<lambda>r. map_option (\<lambda>g. g\<lparr>sender := f r\<rparr>) (map_option (\<lambda>h. h\<lparr>sender := g r\<rparr>) (regs s r))) =
        (\<lambda>r. map_option (\<lambda>g. g\<lparr>sender := f r\<rparr>) (regs s r))"
    by (rule ext) (simp add: option.map_comp comp_def)
  then show ?thesis by (simp add: set_senders_def)
qed

lemma set_senders_restore:
  "set_senders (\<lambda>r. case regs s r of None \<Rightarrow> 0 | Some g \<Rightarrow> sender g) (set_senders f s) = s"
proof -
  have "(\<lambda>r. map_option (\<lambda>g. g\<lparr>sender := (case regs s r of None \<Rightarrow> 0 | Some g \<Rightarrow> sender g)\<rparr>)
               (regs s r)) = regs s"
  proof
    fix r show "map_option (\<lambda>g. g\<lparr>sender := (case regs s r of None \<Rightarrow> 0 | Some g \<Rightarrow> sender g)\<rparr>)
               (regs s r) = regs s r"
      by (cases "regs s r") simp_all
  qed
  then show ?thesis unfolding set_senders_twice by (simp add: set_senders_def)
qed

lemma removeHandler_set_senders:
  "removeHandler r (set_senders f s) = map_sum id (set_senders f) (removeHandler r s)"
proof (cases "regs s r")
  case None
  then show ?thesis by (simp add: removeHandler_def)
next
  case (Some reg)
  show ?thesis
  proof (cases "registered reg")
    case False
    with Some show ?thesis by (simp add: removeHandler_def)
  next
    case True
    show ?thesis
    proof (cases "lists s (registrations reg)")
      case None
      with Some True show ?thesis by (simp add: removeHandler_def)
    next
      case (Some l)
      have "(\<lambda>x. map_option (\<lambda>g. g\<lparr>sender := f x\<rparr>) (regs s x))
              (r \<mapsto> reg\<lparr>sender := f r, registered := False\<rparr>) =
            (\<lambda>x. map_option (\<lambda>g. g\<lparr>sender := f x\<rparr>) (((regs s)(r \<mapsto> reg\<lparr>registered := False\<rparr>)) x))"
        by (rule ext) simp
      with \<open>regs s r = Some reg\<close> True Some show ?thesis
        by (simp add: removeHandler_def set_senders_def)
    qed
  qed
qed

lemma revoke_all_set_senders:
  "revoke_all rs (set_senders f s) = map_sum id (set_senders f) (revoke_all rs s)"
proof (induction rs arbitrary: s)
  case Nil
  then show ?case by simp
next
  case (Cons a rs)
  then show ?case by (cases "removeHandler a s") (simp_all add: removeHandler_set_senders)
qed

lemma dispatch_set_senders:
  "dispatch H h e (set_senders f s) = map_sum id (set_senders f) (dispatch H h e s)"
  by (cases "H h") (simp_all add: dispatch_def revoke_all_set_senders)

lemma getHandler_set_senders: "getHandler r (set_senders f s) = getHandler r s"
  by (cases "regs s r") (simp_all add: getHandler_def)

lemma fire_step_set_senders:
  "fire_step H e p n (set_senders f s) =
     map_sum id (\<lambda>d. (fst d, fst (snd d), set_senders f (snd (snd d)))) (fire_step H e p n s)"
proof (cases "lists s p")
  case None
  then show ?thesis by (simp add: fire_step_def)
next
  case l: (Some l)
  show ?thesis
  proof (cases "node_value n l")
    case None
    with l show ?thesis by (simp add: fire_step_def)
  next
    case r: (Some r)
    show ?thesis
    proof (cases "getHandler r s")
      case (Inl x)
      with l r show ?thesis by (simp add: fire_step_def getHandler_set_senders)
    next
      case h: (Inr h)
      show ?thesis
      proof (cases "dispatch H h e s")
        case (Inl x)
        with l r h show ?thesis
          by (simp add: fire_step_def getHandler_set_senders dispatch_set_senders)
      next
        case s1: (Inr s1)
        show ?thesis
        proof (cases "lists s1 p")
          case None
          with l r h s1 show ?thesis
            by (simp add: fire_step_def getHandler_set_senders dispatch_set_senders)
        next
          case l1: (Some l1)
          with l r h s1 show ?thesis
            by (cases "node_next n l1")
              (simp_all add: fire_step_def getHandler_set_senders dispatch_set_senders)
        qed
      qed
    qed
  qed
qed

lemma fire_loop_set_senders_fwd:
  assumes run: "fire_loop H e p it acc s = Some y"
  shows "fire_loop H e p it acc (set_senders f s) = Some (map_sum id (apsnd (set_senders f)) y)"
proof -
  define P where "P = (\<lambda>H e p (it :: addr option) acc s
       (y :: error + (addr \<times> addr) list \<times> EventBus).
     fire_loop H e p it acc (set_senders f s) = Some (map_sum id (apsnd (set_senders f)) y))"
  have "P H e p it acc s y"
  proof (rule fire_loop.raw_induct [where P = P, OF _ run])
    fix fire H e p it acc s y
    assume IH: "\<And>H e p it acc s y. fire H e p it acc s = Some y \<Longrightarrow> P H e p it acc s y"
    assume body: "(case it of
        None \<Rightarrow> Some (Inr (acc, s))
      | Some n \<Rightarrow>
          (case fire_step H e p n s of
             Inl x \<Rightarrow> Some (Inl x)
           | Inr d \<Rightarrow> fire H e p (fst (snd d)) (acc @ [fst d]) (snd (snd d)))) = Some y"
    show "P H e p it acc s y"
    proof (cases it)
      case None
      with body show ?thesis by (auto simp: P_def fire_loop_end)
    next
      case (Some n)
      note b = body [unfolded Some option.case]
      show ?thesis
      proof (cases "fire_step H e p n s")
        case (Inl x)
        with b have "y = Inl x" by simp
        with Inl Some show ?thesis
          unfolding P_def by (subst fire_loop.simps) (simp add: fire_step_set_senders)
      next
        case (Inr d)
        with b have "fire H e p (fst (snd d)) (acc @ [fst d]) (snd (snd d)) = Some y" by simp
        from IH [OF this] Inr Some show ?thesis
          unfolding P_def by (subst fire_loop.simps) (simp add: fire_step_set_senders)
      qed
    qed
  qed
  then show ?thesis by (simp add: P_def)
qed

lemma fire_loop_set_senders:
  "fire_loop H e p it acc (set_senders f s) =
     map_option (map_sum id (apsnd (set_senders f))) (fire_loop H e p it acc s)"
proof (cases "fire_loop H e p it acc s")
  case (Some y)
  with fire_loop_set_senders_fwd [OF Some, of f] show ?thesis by simp
next
  case None
  have "fire_loop H e p it acc (set_senders f s) = None"
  proof (cases "fire_loop H e p it acc (set_senders f s)")
    case (Some y')
    from fire_loop_set_senders_fwd [OF Some,
        of "\<lambda>r. case regs s r of None \<Rightarrow> 0 | Some g \<Rightarrow> sender g"] None
    show ?thesis by (simp add: set_senders_restore)
  qed simp
  with None show ?thesis by simp
qed

lemma handlers_index_set_senders:
  "handlers_index k (set_senders f s) = apsnd (set_senders f) (handlers_index k s)"
  by (cases "handlers s k") (simp_all add: handlers_index_def set_senders_def)

lemma FireEvent_set_senders:
  "FireEvent H e (set_senders f s) =
     map_option (map_sum id (apsnd (set_senders f))) (FireEvent H e s)"
proof -
  obtain p s1 where hi: "handlers_index (etype e) s = (p, s1)"
    by (cases "handlers_index (etype e) s")
  show ?thesis
  proof (cases "p = 0")
    case True
    with hi show ?thesis by (simp add: FireEvent_def handlers_index_set_senders)
  next
    case False
    with hi show ?thesis
      by (cases "lists s1 p")
        (simp_all add: FireEvent_def handlers_index_set_senders fire_loop_set_senders)
  qed
qed

text \<open>Registering with another sender value changes the sender field only.\<close>

lemma AddHandler_body_set_senders:
  "map_sum id (apsnd (set_senders f)) (AddHandler_body T h sv s) =
   map_sum id (apsnd (set_senders f)) (AddHandler_body T h sv' s)"
proof -
  obtain p0 s1 where hi: "handlers_index T s = (p0, s1)" by (cases "handlers_index T s")
  have eq: "(\<lambda>r. map_option (\<lambda>g. g\<lparr>sender := f r\<rparr>)
                 (((regs s2)(b \<mapsto> \<lparr>handler = h, registrations = p, sender = sv, registered = True\<rparr>)) r)) =
            (\<lambda>r. map_option (\<lambda>g. g\<lparr>sender := f r\<rparr>)
                 (((regs s2)(b \<mapsto> \<lparr>handler = h, registrations = p, sender = sv', registered = True\<rparr>)) r))"
    for s2 :: EventBus and b p
    by (rule ext) simp
  show ?thesis
  proof (cases "p0 = 0")
    case True
    with hi eq show ?thesis by (simp add: AddHandler_body_def set_senders_def)
  next
    case False
    with hi eq show ?thesis
      by (cases "lists s1 p0") (simp_all add: AddHandler_body_def set_senders_def)
  qed
qed

text \<open>The overload with a sender stores the address of its parameter, whatever the sender.\<close>

lemma AddHandler_sender_stores_slot:
  assumes "AddHandler_sender T h a slot s = Inr (r, s')"
  shows "getSender r s' = Inr slot"
proof -
  obtain p0 s1 where hi: "handlers_index T s = (p0, s1)" by (cases "handlers_index T s")
  show ?thesis
  proof (cases "p0 = 0")
    case True
    with assms hi show ?thesis
      by (auto simp: AddHandler_sender_def AddHandler_body_def getSender_def)
  next
    case False
    with assms hi show ?thesis
      by (cases "lists s1 p0")
        (auto simp: AddHandler_sender_def AddHandler_body_def getSender_def)
  qed
qed

text \<open>Well-formedness does not depend on the senders.\<close>

lemma bus_inv_set_senders:
  assumes inv: "bus_inv H s"
  shows "bus_inv H (set_senders f s)"
proof (rule bus_invI)
  let ?s = "set_senders f s"
  show "0 < brk ?s" using bus_inv_brk [OF inv] by simp
  show "lists ?s p \<noteq> None" if "handlers ?s k = Some p" "p \<noteq> 0" for k p
    using that bus_inv_handlers [OF inv, of k p] by auto
  show "k1 = k2" if "handlers ?s k1 = Some p" "handlers ?s k2 = Some p" "p \<noteq> 0" for k1 k2 p
    using that bus_inv_inj [OF inv, of k1 p k2] by simp
  show "p \<noteq> 0 \<and> p < brk ?s \<and> (\<exists>k. handlers ?s k = Some p) \<and>
        distinct (map fst l) \<and> distinct (map snd l)" if "lists ?s p = Some l" for p l
    using that bus_inv_list [OF inv, of p l] by simp
  show "fst x < brk ?s \<and>
        (\<exists>reg. regs ?s (snd x) = Some reg \<and> registrations reg = p \<and> registered reg)"
    if "lists ?s p = Some l" "x \<in> set l" for p l x
    using that bus_inv_elem [OF inv, of p l x] by auto
  show "r < brk ?s \<and> lists ?s (registrations reg) \<noteq> None" if "regs ?s r = Some reg" for r reg
  proof -
    from that obtain g where "regs s r = Some g" "reg = g\<lparr>sender := f r\<rparr>" by auto
    with bus_inv_reg [OF inv, of r g] show ?thesis by auto
  qed
  show "\<exists>ho. H (handler reg) = Some ho \<and> htype ho = k"
    if "regs ?s r = Some reg" "handlers ?s k = Some (registrations reg)" for r reg k
  proof -
    from that(1) obtain g where "regs s r = Some g" "reg = g\<lparr>sender := f r\<rparr>" by auto
    with bus_inv_typed [OF inv, of r g k] that(2) show ?thesis by auto
  qed
qed

section \<open>The descriptor path\<close>

lemma dispatch_entries_total:
  "list_all (\<lambda>x. dtype (snd x) \<noteq> etype e \<or>
                    (isl (dpredicate (snd x) e) = False \<and> isl (dhandler (snd x) e) = False)) xs \<Longrightarrow>
   \<exists>calls. dispatch_entries e xs = Inr calls"
proof (induction xs)
  case Nil
  then show ?case by simp
next
  case (Cons x xs)
  then obtain rest where rest: "dispatch_entries e xs = Inr rest" by auto
  show ?case
  proof (cases "dtype (snd x) = etype e")
    case True
    with Cons.prems obtain b cs where "dpredicate (snd x) e = Inr b" "dhandler (snd x) e = Inr cs"
      by (cases "dpredicate (snd x) e"; cases "dhandler (snd x) e") simp_all
    with True rest show ?thesis by simp
  next
    case False
    with rest show ?thesis by simp
  qed
qed

lemma dispatch_entries_other:
  "k \<notin> fst ` set xs \<Longrightarrow> dispatch_entries e xs = Inr calls \<Longrightarrow>
   filter (\<lambda>c. fst c = k) calls = []"
proof (induction xs arbitrary: calls)
  case Nil
  then show ?case by simp
next
  case (Cons x xs)
  from Cons.prems(1) have k: "k \<notin> fst ` set xs" "fst x \<noteq> k" by auto
  show ?case
  proof (cases "dtype (snd x) = etype e")
    case False
    with Cons.prems(2) have "dispatch_entries e xs = Inr calls" by simp
    from Cons.IH [OF k(1) this] show ?thesis .
  next
    case True
    from Cons.prems(2) True obtain b where b: "dpredicate (snd x) e = Inr b"
      by (cases "dpredicate (snd x) e") simp_all
    show ?thesis
    proof (cases b)
      case False
      with Cons.prems(2) True b have "dispatch_entries e xs = Inr calls" by simp
      from Cons.IH [OF k(1) this] show ?thesis .
    next
      case bt: True
      from Cons.prems(2) True b bt obtain cs where cs: "dhandler (snd x) e = Inr cs"
        by (cases "dhandler (snd x) e") simp_all
      from Cons.prems(2) True b bt cs obtain rest where
        rest: "dispatch_entries e xs = Inr rest" "calls = map (Pair (fst x)) cs @ rest"
        by (cases "dispatch_entries e xs") auto
      have "filter (\<lambda>c. fst c = k) (map (Pair (fst x)) cs) = []"
        using k(2) by (induction cs) simp_all
      with Cons.IH [OF k(1) rest(1)] rest(2) show ?thesis by simp
    qed
  qed
qed

lemma dispatch_entries_subscription:
  assumes "distinct (map fst xs)"
    and "(k, \<lparr>dtype = etype e, dhandler = internalHandler (etype e) cb,
              dpredicate = internalPredicate (etype e) predicate\<rparr>) \<in> set xs"
    and "dispatch_entries e xs = Inr calls"
  shows "filter (\<lambda>c. fst c = k) calls = (if predicate e then [(k, cb)] else [])"
  using assms
proof (induction xs arbitrary: calls)
  case Nil
  then show ?case by simp
next
  case (Cons x xs)
  let ?d = "\<lparr>dtype = etype e, dhandler = internalHandler (etype e) cb,
              dpredicate = internalPredicate (etype e) predicate\<rparr>"
  show ?case
  proof (cases "x = (k, ?d)")
    case True
    with Cons.prems(1) have notin: "k \<notin> fst ` set xs" by simp
    show ?thesis
    proof (cases "predicate e")
      case False
      with Cons.prems(3) True have "dispatch_entries e xs = Inr calls"
        by (simp add: internalPredicate_def is_a_def)
      from dispatch_entries_other [OF notin this] False show ?thesis by simp
    next
      case pt: True
      from Cons.prems(3) True pt obtain rest where
        rest: "dispatch_entries e xs = Inr rest" "calls = (k, cb) # rest"
        by (cases "dispatch_entries e xs") (auto simp: internalPredicate_def internalHandler_def is_a_def)
      from dispatch_entries_other [OF notin rest(1)] rest(2) pt show ?thesis by simp
    qed
  next
    case False
    with Cons.prems have mem: "(k, ?d) \<in> set xs" and dist: "distinct (map fst xs)"
      by auto
    from mem have "k \<in> fst ` set xs" by force
    with Cons.prems(1) have kx: "fst x \<noteq> k" by auto
    show ?thesis
    proof (cases "dtype (snd x) = etype e")
      case False
      with Cons.prems(3) have "dispatch_entries e xs = Inr calls" by simp
      from Cons.IH [OF dist mem this] show ?thesis .
    next
      case True
      from Cons.prems(3) True obtain b where b: "dpredicate (snd x) e = Inr b"
        by (cases "dpredicate (snd x) e") simp_all
      show ?thesis
      proof (cases b)
        case False
        with Cons.prems(3) True b have "dispatch_entries e xs = Inr calls" by simp
        from Cons.IH [OF dist mem this] show ?thesis .
      next
        case bt: True
        from Cons.prems(3) True b bt obtain cs where cs: "dhandler (snd x) e = Inr cs"
          by (cases "dhandler (snd x) e") simp_all
        from Cons.prems(3) True b bt cs obtain rest where
          rest: "dispatch_entries e xs = Inr rest" "calls = map (Pair (fst x)) cs @ rest"
          by (cases "dispatch_entries e xs") auto
        have "filter (\<lambda>c. fst c = k) (map (Pair (fst x)) cs) = []"
          using kx by (induction cs) simp_all
        with Cons.IH [OF dist mem rest(1)] rest(2) show ?thesis by simp
      qed
    qed
  qed
qed

lemma cm_inv_init: "cm_inv (collectionMap EventBus_init)"
  by (simp add: cm_inv_def EventBus_init_def)

text \<open>\<open>Subscribe\<close> makes a live subscription and keeps the others.\<close>

lemma Subscribe_subscribed:
  assumes "cm_inv (collectionMap s)" and "Subscribe T cb predicate s = (k, s')"
  shows "subscribed k T cb predicate s' \<and> cm_inv (collectionMap s') \<and>
         (\<forall>k' T' cb' p'. subscribed k' T' cb' p' s \<longrightarrow> subscribed k' T' cb' p' s')"
proof -
  let ?d = "\<lparr>dtype = T, dhandler = internalHandler T cb, dpredicate = internalPredicate T predicate\<rparr>"
  from assms(2) have k: "k = next_id (collectionMap s)"
    and s': "entries (collectionMap s') = entries (collectionMap s) @ [(k, ?d)]"
      "next_id (collectionMap s') = Suc k"
    by (auto simp: Subscribe_def Add_def CollectionMap_Add_def)
  from assms(1) have fresh: "k \<notin> fst ` set (entries (collectionMap s))"
    unfolding cm_inv_def k list_all_iff by auto
  from assms(1) fresh have d: "distinct (map fst (entries (collectionMap s')))"
    by (simp add: s' cm_inv_def)
  moreover from assms(1) have "list_all (\<lambda>x. fst x < Suc k) (entries (collectionMap s))"
    unfolding cm_inv_def k list_all_iff by auto
  ultimately show ?thesis by (auto simp: subscribed_def cm_inv_def s')
qed

text \<open>
  The lambdas of \<open>Subscribe\<close> accept an event of the class \<open>T\<close> and an event of a
  class derived from \<open>T\<close>, and throw on any other.
\<close>

lemma internal_callbacks:
  "internalHandler T cb e = (if etype e = T \<or> T \<in> set (bases e) then Inr [cb] else Inl BadCast)"
  "internalPredicate T p e =
     (if etype e = T \<or> T \<in> set (bases e) then Inr (p e) else Inl BadCast)"
  by (simp_all add: internalHandler_def internalPredicate_def is_a_def)

lemma Subscribe_spec_Some: "Subscribe T cb p s = Subscribe_spec T cb (Some p) s"
proof -
  have "internalHandler T cb = (\<lambda>e. if is_a e T then Inr [cb] else Inl BadCast)"
    "internalPredicate T p = (\<lambda>e. if is_a e T then Inr (p e) else Inl BadCast)"
    by (rule ext, simp add: internalHandler_def internalPredicate_def)+
  then show ?thesis by (simp add: Subscribe_def Subscribe_spec_def cong: if_cong)
qed

lemma Subscribe_spec_None: "Subscribe_spec T cb None s = Subscribe_spec T cb (Some (\<lambda>e. True)) s"
  by (simp add: Subscribe_spec_def cong: if_cong)

text \<open>After a subscription is cancelled, no callback is invoked through it.\<close>

lemma Cancel_no_calls:
  assumes "CollectionMap_Dispatch e (CollectionMap_Cancel k cm) = Inr calls"
  shows "filter (\<lambda>c. fst c = k) calls = []"
proof -
  have "k \<notin> fst ` set (filter (\<lambda>x. fst x \<noteq> k) (entries cm))" by auto
  from dispatch_entries_other [OF this] assms show ?thesis
    by (simp add: CollectionMap_Dispatch_def CollectionMap_Cancel_def)
qed

section \<open>The example buses are built by the operations\<close>

lemma ex_handlers_simps:
  "ex_handlers 10 = Some \<lparr>htype = 1, onEvent = (\<lambda>e. [])\<rparr>"
  "ex_handlers 11 = Some \<lparr>htype = 1, onEvent = (\<lambda>e. [])\<rparr>"
  "ex_handlers 12 = Some \<lparr>htype = 1, onEvent = (\<lambda>e. [])\<rparr>"
  "ex_handlers 20 = Some \<lparr>htype = 2, onEvent = (\<lambda>e. [])\<rparr>"
  "ex_handlers 30 = Some \<lparr>htype = 1, onEvent = (\<lambda>e. [2])\<rparr>"
  "ex_handlers 31 = Some \<lparr>htype = 1, onEvent = (\<lambda>e. [4])\<rparr>"
  "ex_handlers 33 = Some \<lparr>htype = 1, onEvent = (\<lambda>e. [5])\<rparr>"
  by (simp_all add: ex_handlers_def)

lemma ex_bus1_run: "AddHandler 1 h1 EventBus_init = Inr (2, ex_bus1 h1)"
  by (simp add: AddHandler_def AddHandler_body_def handlers_index_def EventBus_init_def ex_bus1_def eval_nat_numeral)

lemma ex_bus2_run: "AddHandler 1 h2 (ex_bus1 h1) = Inr (4, ex_bus2 h1 h2)"
  by (simp add: AddHandler_def AddHandler_body_def handlers_index_def ex_bus1_def ex_bus2_def
      eval_nat_numeral fun_upd_twist)

lemma ex_bus3_run: "AddHandler 1 h3 (ex_bus2 h1 h2) = Inr (6, ex_bus3 h1 h2 h3)"
  by (simp add: AddHandler_def AddHandler_body_def handlers_index_def ex_bus2_def ex_bus3_def
      eval_nat_numeral fun_upd_twist)

lemma ex_bus_types_run: "AddHandler 2 20 (ex_bus1 10) = Inr (5, ex_bus_types)"
  by (simp add: AddHandler_def AddHandler_body_def handlers_index_def ex_bus1_def ex_bus_types_def
      eval_nat_numeral fun_upd_twist)


lemma ex_bus1_inv: "ex_handlers h1 = Some ho \<Longrightarrow> htype ho = 1 \<Longrightarrow> bus_inv ex_handlers (ex_bus1 h1)"
  using AddHandler_inv [OF bus_inv_init _ _ ex_bus1_run] by simp

lemma ex_bus2_inv:
  "ex_handlers h1 = Some ho1 \<Longrightarrow> htype ho1 = 1 \<Longrightarrow> ex_handlers h2 = Some ho2 \<Longrightarrow> htype ho2 = 1 \<Longrightarrow>
   bus_inv ex_handlers (ex_bus2 h1 h2)"
  using AddHandler_inv [OF ex_bus1_inv _ _ ex_bus2_run] by simp

lemma ex_bus3_inv:
  "ex_handlers h1 = Some ho1 \<Longrightarrow> htype ho1 = 1 \<Longrightarrow> ex_handlers h2 = Some ho2 \<Longrightarrow> htype ho2 = 1 \<Longrightarrow>
   ex_handlers h3 = Some ho3 \<Longrightarrow> htype ho3 = 1 \<Longrightarrow> bus_inv ex_handlers (ex_bus3 h1 h2 h3)"
  using AddHandler_inv [OF ex_bus2_inv _ _ ex_bus3_run] by simp

lemma ex_bus_types_inv: "bus_inv ex_handlers ex_bus_types"
proof -
  have "bus_inv ex_handlers (ex_bus1 10)"
    by (rule ex_bus1_inv [of _ "\<lparr>htype = 1, onEvent = (\<lambda>e. [])\<rparr>"]) (simp_all add: ex_handlers_def)
  from AddHandler_inv [OF this _ _ ex_bus_types_run, of "\<lparr>htype = 2, onEvent = (\<lambda>e. [])\<rparr>"]
  show ?thesis by (simp add: ex_handlers_def)
qed


lemma ex_bus_types_fire:
  "FireEvent ex_handlers ex_event2 ex_bus_types = Some (Inr ([(5, 20)], ex_bus_types))"
  by (simp add: FireEvent_def handlers_index_def ex_bus_types_def ex_event2_def list_begin_def
      fire_loop.simps fire_step_def getHandler_def dispatch_def ex_handlers_def)

lemma AddHandler_sender_example:
  "\<exists>s. AddHandler_sender 1 10 100 200 EventBus_init = Inr (2, s) \<and> getSender 2 s = Inr 200"
  by (simp add: AddHandler_sender_def AddHandler_body_def handlers_index_def
      EventBus_init_def getSender_def eval_nat_numeral)

lemma ex_bus_mixed_senders: "set_senders f (ex_bus_mixed g) = ex_bus_mixed f"
  "set_senders f (ex_bus_mixed_fired g) = ex_bus_mixed_fired f"
  by (simp_all add: set_senders_def ex_bus_mixed_def ex_bus_mixed_fired_def fun_eq_iff)

lemma ex_bus_mixed_run:
  "\<exists>s1. AddHandler 1 33 ex_bus_types = Inr (7, s1) \<and>
      AddHandler 1 12 s1 = Inr (9, ex_bus_mixed (\<lambda>r. 0))"
  by (simp add: AddHandler_def AddHandler_body_def handlers_index_def ex_bus_types_def
      ex_bus_mixed_def eval_nat_numeral fun_upd_twist)

lemma ex_bus_mixed_sender_run:
  "\<exists>s1 s2 s3. AddHandler_sender 1 10 100 200 EventBus_init = Inr (2, s1) \<and>
      AddHandler 2 20 s1 = Inr (5, s2) \<and> AddHandler 1 33 s2 = Inr (7, s3) \<and>
      AddHandler_sender 1 12 101 201 s3 = Inr (9, ex_bus_mixed ex_senders)"
  by (simp add: AddHandler_sender_def AddHandler_def AddHandler_body_def handlers_index_def
      EventBus_init_def ex_bus_mixed_def ex_senders_def eval_nat_numeral fun_upd_twist)

lemma ex_bus_mixed_inv: "bus_inv ex_handlers (ex_bus_mixed f)"
proof -
  from ex_bus_mixed_run obtain s1 where
    s1: "AddHandler 1 33 ex_bus_types = Inr (7, s1)"
      "AddHandler 1 12 s1 = Inr (9, ex_bus_mixed (\<lambda>r. 0))" by blast
  from AddHandler_inv [OF ex_bus_types_inv ex_handlers_simps(7) _ s1(1)]
  have "bus_inv ex_handlers s1" by simp
  from AddHandler_inv [OF this ex_handlers_simps(3) _ s1(2)]
  have "bus_inv ex_handlers (ex_bus_mixed (\<lambda>r. 0))" by simp
  from bus_inv_set_senders [OF this, of f] show ?thesis by (simp add: ex_bus_mixed_senders)
qed

lemma ex_bus_mixed_dispatch_all:
  "dispatch_all ex_handlers ex_event1 [10, 33, 12] (ex_bus_mixed f) = Inr (ex_bus_mixed_fired f)"
  by (simp add: dispatch_def ex_handlers_simps ex_event1_def removeHandler_def ex_bus_mixed_def
      ex_bus_mixed_fired_def fun_upd_twist)

lemma ex_bus_mixed_facts:
  "handlers (ex_bus_mixed f) (etype ex_event1) = Some 1"
  "collection (ex_bus_mixed f) 1 = [2, 7, 9]"
  "map (\<lambda>r. (r, handler_of (ex_bus_mixed f) r)) [2, 7, 9] = [(2, 10), (7, 33), (9, 12)]"
  "map (handler_of (ex_bus_mixed f)) [2, 7, 9] = [10, 33, 12]"
  "script_of ex_handlers ex_event1 (ex_bus_mixed f) 2 = []"
  "script_of ex_handlers ex_event1 (ex_bus_mixed f) 7 = [5]"
  "script_of ex_handlers ex_event1 (ex_bus_mixed f) 9 = []"
  "5 \<in> dom (regs (ex_bus_mixed f))"
  by (simp_all add: ex_bus_mixed_def ex_event1_def collection_def handler_of_def script_of_def
      ex_handlers_simps)

lemma ex_bus_mixed_quiet:
  "\<forall>r \<in> set (collection (ex_bus_mixed f) 1).
     set (script_of ex_handlers ex_event1 (ex_bus_mixed f) r) \<subseteq> dom (regs (ex_bus_mixed f)) \<and>
     set (script_of ex_handlers ex_event1 (ex_bus_mixed f) r) \<inter>
       set (collection (ex_bus_mixed f) 1) = {}"
  unfolding ex_bus_mixed_facts(2) using ex_bus_mixed_facts(8) [of f]
  by (simp add: ex_bus_mixed_facts)

section \<open>The claims\<close>

text \<open>
  Claim C1 (type isolation of the typed registry). On a well-formed bus, a \<open>FireEvent\<close>
  that returns has dispatched only through registrations of the collection filed under the
  type of the event, each time to the handler stored in the registration, which is a handler
  object for that very type; a registration that is filed under another type \<open>A\<close> is not
  among them. So when \<open>AddHandler\<close> has registered a handler for type \<open>A\<close>, no later
  \<open>FireEvent\<close> with an event of another type dispatches through that registration or
  to that handler.
\<close>

theorem FireEvent_type_isolation:
  assumes "bus_inv H s" and "FireEvent H e s = Some (Inr (tr, s'))"
  shows "(\<forall>d \<in> set tr. (\<exists>p. handlers s (etype e) = Some p \<and> fst d \<in> set (collection s p)) \<and>
            snd d = handler_of s (fst d) \<and> (\<exists>ho. H (snd d) = Some ho \<and> htype ho = etype e)) \<and>
         (\<forall>r reg A. regs s r = Some reg \<longrightarrow> handlers s A = Some (registrations reg) \<longrightarrow>
            A \<noteq> etype e \<longrightarrow> r \<notin> fst ` set tr) \<and>
         (\<forall>s0 A h ho r. bus_inv H s0 \<longrightarrow> H h = Some ho \<longrightarrow> htype ho = A \<longrightarrow>
            (\<exists>s1. AddHandler A h s0 = Inr (r, s1) \<and> later H s1 s) \<longrightarrow> A \<noteq> etype e \<longrightarrow>
            r \<notin> fst ` set tr \<and> h \<notin> snd ` set tr)"
proof -
  note w = FireEvent_within [OF assms]
  have filed: "r \<notin> fst ` set tr"
    if r: "regs s r = Some reg" and A: "handlers s A = Some (registrations reg)"
      and ne: "A \<noteq> etype e" for r reg A
  proof
    assume "r \<in> fst ` set tr"
    with w obtain p where p: "handlers s (etype e) = Some p" "r \<in> set (collection s p)" by auto
    from p(2) obtain l n where l: "lists s p = Some l" "(n, r) \<in> set l"
      by (auto simp: collection_mem)
    from bus_inv_elem [OF assms(1) l] r have "registrations reg = p" by simp
    moreover from bus_inv_list [OF assms(1) l(1)] have "p \<noteq> 0" by simp
    ultimately show False using bus_inv_inj [OF assms(1) A, of "etype e"] p(1) ne by simp
  qed
  have added: "r \<notin> fst ` set tr \<and> h \<notin> snd ` set tr"
    if inv0: "bus_inv H s0" and h: "H h = Some ho" "htype ho = A"
      and run: "AddHandler A h s0 = Inr (r, s1)" and l: "later H s1 s" and ne: "A \<noteq> etype e"
    for s0 A h ho r s1
  proof
    from AddHandler_body_inv [OF inv0 h, of 0] run obtain p where
      a: "bus_inv H s1" "handlers s1 A = Some p" "p \<noteq> 0"
        "regs s1 r = Some \<lparr>handler = h, registrations = p, sender = 0, registered = True\<rparr>"
      by (auto simp: AddHandler_def)
    from later_inv [OF l a(1)] have "extends s1 s" by simp
    with a(2,3,4) obtain reg where "regs s r = Some reg" "registrations reg = p"
      "handlers s A = Some p"
      unfolding extends_def by fastforce
    with filed [of r reg A] ne show "r \<notin> fst ` set tr" by simp
    show "h \<notin> snd ` set tr"
    proof
      assume "h \<in> snd ` set tr"
      with w obtain ho' where "H h = Some ho'" "htype ho' = etype e" by auto
      with h ne show False by simp
    qed
  qed
  from w filed added show ?thesis by blast
qed

text \<open>
  Handler 10 is registered for type 1, then handler 20 for type 2; an event of type 2 is
  dispatched to handler 20 and not to handler 10.
\<close>

theorem FireEvent_type_isolation_witness:
  "bus_inv ex_handlers EventBus_init \<and>
   AddHandler 1 10 EventBus_init = Inr (2, ex_bus1 10) \<and>
   later ex_handlers (ex_bus1 10) ex_bus_types \<and>
   bus_inv ex_handlers ex_bus_types \<and>
   FireEvent ex_handlers ex_event2 ex_bus_types = Some (Inr ([(5, 20)], ex_bus_types)) \<and>
   collection ex_bus_types 4 = [5] \<and>
   2 \<notin> fst ` set [(5 :: addr, 20 :: addr)] \<and> 10 \<notin> snd ` set [(5 :: addr, 20 :: addr)]"
proof -
  have c: "collection ex_bus_types 4 = [5]"
    by (simp add: ex_bus_types_def collection_def)
  have l: "later ex_handlers (ex_bus1 10) ex_bus_types"
    by (rule later_AddHandler [of ex_handlers "ex_bus1 10" "ex_bus1 10" 20
          "\<lparr>htype = 2, onEvent = (\<lambda>e. [])\<rparr>" 2 5 ex_bus_types])
      (simp_all add: later_now ex_handlers_simps ex_bus_types_run)
  have "\<exists>s1. AddHandler 1 10 EventBus_init = Inr (2, s1) \<and> later ex_handlers s1 ex_bus_types"
    using ex_bus1_run [of 10] l by blast
  from FireEvent_type_isolation [OF ex_bus_types_inv ex_bus_types_fire, THEN conjunct2,
      THEN conjunct2, rule_format, OF bus_inv_init ex_handlers_simps(1) _ this]
  have "2 \<notin> fst ` set [(5 :: addr, 20 :: addr)] \<and> 10 \<notin> snd ` set [(5 :: addr, 20 :: addr)]"
    by (simp add: ex_event2_def)
  with bus_inv_init ex_bus1_run [of 10] l ex_bus_types_inv ex_bus_types_fire c
  show ?thesis by simp
qed

text \<open>
  Claim C2 (dispatch in registration order). On a well-formed bus whose handlers for the
  type of the event revoke no registration of that collection while they are dispatched,
  \<open>FireEvent\<close> returns; it has dispatched through the registrations of the collection, all
  of them, in the order of the collection, and it has run their handlers: the bus it leaves
  is the one that these handlers, invoked one after the other in that order, make of the
  bus. The order of the collection is the order of registration adjusted for removals:
  \<open>AddHandler\<close> appends the new registration at the end, and \<open>removeHandler\<close> takes its
  registration out and keeps the others in place.
\<close>

theorem FireEvent_registration_order:
  assumes "bus_inv H s" and "handlers s (etype e) = Some p"
    and "\<forall>r \<in> set (collection s p).
           set (script_of H e s r) \<subseteq> dom (regs s) \<and>
           set (script_of H e s r) \<inter> set (collection s p) = {}"
  shows "(\<exists>s'. FireEvent H e s =
            Some (Inr (map (\<lambda>r. (r, handler_of s r)) (collection s p), s')) \<and>
            dispatch_all H e (map (handler_of s) (collection s p)) s = Inr s') \<and>
         (\<forall>h ho. H h = Some ho \<longrightarrow> htype ho = etype e \<longrightarrow>
            (\<exists>r s1 q. AddHandler (etype e) h s = Inr (r, s1) \<and> handlers s1 (etype e) = Some q \<and>
               collection s1 q = collection s p @ [r] \<and> handler_of s1 r = h)) \<and>
         (\<forall>r reg. regs s r = Some reg \<longrightarrow>
            (\<exists>s1. removeHandler r s = Inr s1 \<and> handlers s1 = handlers s \<and>
               collection s1 p = filter (\<lambda>x. x \<noteq> r) (collection s p)))"
proof (intro conjI allI impI)
  from FireEvent_quiet [OF assms]
  show "\<exists>s'. FireEvent H e s =
            Some (Inr (map (\<lambda>r. (r, handler_of s r)) (collection s p), s')) \<and>
            dispatch_all H e (map (handler_of s) (collection s p)) s = Inr s'"
    by blast
next
  fix h ho assume "H h = Some ho" "htype ho = etype e"
  from AddHandler_appends [OF assms(1) this, of "collection s p"] assms(2)
  show "\<exists>r s1 q. AddHandler (etype e) h s = Inr (r, s1) \<and> handlers s1 (etype e) = Some q \<and>
               collection s1 q = collection s p @ [r] \<and> handler_of s1 r = h"
    by auto
next
  fix r reg assume "regs s r = Some reg"
  from removeHandler_collection [OF assms(1) this]
  show "\<exists>s1. removeHandler r s = Inr s1 \<and> handlers s1 = handlers s \<and>
               collection s1 p = filter (\<lambda>x. x \<noteq> r) (collection s p)"
    by auto
qed

text \<open>
  On a new bus, handler 10 is registered for type 1, handler 20 for type 2, and then the
  handlers 33 and 12 for type 1. An event of type 1 is dispatched to the handlers 10, 33
  and 12, in the order of their registration, and handler 33 has run: the registration of
  handler 20, which it revokes, is gone from the collection of type 2.
\<close>

theorem FireEvent_registration_order_witness:
  "AddHandler 1 10 EventBus_init = Inr (2, ex_bus1 10) \<and>
   AddHandler 2 20 (ex_bus1 10) = Inr (5, ex_bus_types) \<and>
   (\<exists>s1. AddHandler 1 33 ex_bus_types = Inr (7, s1) \<and>
      AddHandler 1 12 s1 = Inr (9, ex_bus_mixed (\<lambda>r. 0))) \<and>
   bus_inv ex_handlers (ex_bus_mixed (\<lambda>r. 0)) \<and>
   handlers (ex_bus_mixed (\<lambda>r. 0)) (etype ex_event1) = Some 1 \<and>
   collection (ex_bus_mixed (\<lambda>r. 0)) 1 = [2, 7, 9] \<and>
   collection (ex_bus_mixed (\<lambda>r. 0)) 4 = [5] \<and>
   script_of ex_handlers ex_event1 (ex_bus_mixed (\<lambda>r. 0)) 7 = [5] \<and>
   FireEvent ex_handlers ex_event1 (ex_bus_mixed (\<lambda>r. 0)) =
     Some (Inr ([(2, 10), (7, 33), (9, 12)], ex_bus_mixed_fired (\<lambda>r. 0))) \<and>
   collection (ex_bus_mixed_fired (\<lambda>r. 0)) 4 = []"
proof -
  let ?s = "ex_bus_mixed (\<lambda>r. 0)"
  have c4: "collection ?s 4 = [5]" "collection (ex_bus_mixed_fired (\<lambda>r. 0)) 4 = []"
    by (simp_all add: collection_def ex_bus_mixed_def ex_bus_mixed_fired_def)
  from FireEvent_registration_order [OF ex_bus_mixed_inv ex_bus_mixed_facts(1) ex_bus_mixed_quiet,
      THEN conjunct1, of "\<lambda>r. 0"]
  obtain s' where a: "FireEvent ex_handlers ex_event1 ?s =
        Some (Inr (map (\<lambda>r. (r, handler_of ?s r)) (collection ?s 1), s'))"
      "dispatch_all ex_handlers ex_event1 (map (handler_of ?s) (collection ?s 1)) ?s = Inr s'"
    by blast
  from a(2) have "s' = ex_bus_mixed_fired (\<lambda>r. 0)"
    unfolding ex_bus_mixed_facts(2,4) ex_bus_mixed_dispatch_all by simp
  with a(1) have "FireEvent ex_handlers ex_event1 ?s =
     Some (Inr ([(2, 10), (7, 33), (9, 12)], ex_bus_mixed_fired (\<lambda>r. 0)))"
    unfolding ex_bus_mixed_facts(2,3) by simp
  with ex_bus1_run [of 10] ex_bus_types_run ex_bus_mixed_run ex_bus_mixed_inv [of "\<lambda>r. 0"]
    ex_bus_mixed_facts(1,2,6) [of "\<lambda>r. 0"] c4
  show ?thesis by simp
qed

text \<open>
  Claim C3 (a handler that revokes its own registration while it is dispatched leaves the
  loop intact), as the code has it: a handler that revokes itself erases the node that the
  iterator of the loop points to. Handler 30 is registered first and handler 11 second for
  type 1 on a new bus; handler 30 revokes the registration at 2, its own. \<open>FireEvent\<close>
  then increments an iterator to an erased node, and handler 11 is not reached.
\<close>

theorem FireEvent_self_removal_counterexample:
  "AddHandler 1 30 EventBus_init = Inr (2, ex_bus1 30) \<and>
   AddHandler 1 11 (ex_bus1 30) = Inr (4, ex_bus2 30 11) \<and>
   ex_handlers 30 = Some \<lparr>htype = 1, onEvent = (\<lambda>e. [2])\<rparr> \<and>
   FireEvent ex_handlers ex_event1 (ex_bus2 30 11) = Some (Inl InvalidIterator)"
proof -
  have "FireEvent ex_handlers ex_event1 (ex_bus2 30 11) = Some (Inl InvalidIterator)"
    by (simp add: FireEvent_def handlers_index_def ex_bus2_def ex_event1_def list_begin_def
        fire_loop.simps fire_step_def getHandler_def dispatch_def ex_handlers_simps
        removeHandler_def)
  with ex_bus1_run ex_bus2_run ex_handlers_simps(5) show ?thesis by simp
qed

text \<open>
  Claim C3, amended: removal during dispatch is safe for registrations other than the one
  being dispatched through. On a well-formed bus, when every handler of the collection
  revokes registration handles only and none revokes its own registration, \<open>FireEvent\<close>
  returns; it has dispatched through the first registration and then, each time, through
  the next one that is still in the list, so a registration that was revoked before the
  loop reached it is skipped, and every registration of the collection that no handler of
  the collection revokes has been dispatched through.
\<close>

theorem FireEvent_removal_of_others:
  assumes "bus_inv H s" and "handlers s (etype e) = Some p"
    and "\<forall>r \<in> set (collection s p).
           set (script_of H e s r) \<subseteq> dom (regs s) \<and> r \<notin> set (script_of H e s r)"
  shows "\<exists>tr s'. FireEvent H e s = Some (Inr (tr, s')) \<and> bus_inv H s' \<and>
           tr = map (\<lambda>r. (r, handler_of s r)) (sweep (script_of H e s) (collection s p)) \<and>
           (\<forall>r \<in> set (collection s p).
              (\<forall>r' \<in> set (collection s p). r \<notin> set (script_of H e s r')) \<longrightarrow>
              r \<in> fst ` set tr)"
proof -
  from FireEvent_sweep [OF assms] obtain s' where
    s': "FireEvent H e s =
           Some (Inr (map (\<lambda>r. (r, handler_of s r))
                        (sweep (script_of H e s) (collection s p)), s'))"
      "bus_inv H s'"
    by blast
  have "r \<in> fst ` set (map (\<lambda>r. (r, handler_of s r)) (sweep (script_of H e s) (collection s p)))"
    if "r \<in> set (collection s p)" "\<forall>r' \<in> set (collection s p). r \<notin> set (script_of H e s r')"
    for r
    using sweep_keeps [OF that] by (force simp: image_iff)
  with s' show ?thesis by blast
qed

text \<open>
  Handler 31, registered first, revokes the registration at 4, the second one: the pass
  dispatches to handler 31, skips the second registration and reaches the third.
\<close>

theorem FireEvent_removal_of_others_witness:
  "AddHandler 1 31 EventBus_init = Inr (2, ex_bus1 31) \<and>
   AddHandler 1 11 (ex_bus1 31) = Inr (4, ex_bus2 31 11) \<and>
   AddHandler 1 12 (ex_bus2 31 11) = Inr (6, ex_bus3 31 11 12) \<and>
   bus_inv ex_handlers (ex_bus3 31 11 12) \<and>
   handlers (ex_bus3 31 11 12) (etype ex_event1) = Some 1 \<and>
   collection (ex_bus3 31 11 12) 1 = [2, 4, 6] \<and>
   script_of ex_handlers ex_event1 (ex_bus3 31 11 12) 2 = [4] \<and>
   script_of ex_handlers ex_event1 (ex_bus3 31 11 12) 4 = [] \<and>
   script_of ex_handlers ex_event1 (ex_bus3 31 11 12) 6 = [] \<and>
   (\<exists>s'. FireEvent ex_handlers ex_event1 (ex_bus3 31 11 12) =
       Some (Inr ([(2, 31), (6, 12)], s')))"
proof -
  let ?s = "ex_bus3 31 11 12"
  have inv: "bus_inv ex_handlers ?s"
    by (rule ex_bus3_inv [OF ex_handlers_simps(6) _ ex_handlers_simps(2) _ ex_handlers_simps(3)])
      simp_all
  have key: "handlers ?s (etype ex_event1) = Some 1"
    and c: "collection ?s 1 = [2, 4, 6]"
    by (simp_all add: ex_bus3_def ex_event1_def collection_def)
  have sc: "script_of ex_handlers ex_event1 ?s 2 = [4]"
    "script_of ex_handlers ex_event1 ?s 4 = []"
    "script_of ex_handlers ex_event1 ?s 6 = []"
    by (simp_all add: script_of_def handler_of_def ex_bus3_def ex_handlers_simps)
  have d: "4 \<in> dom (regs ?s)" by (simp add: ex_bus3_def)
  have ok: "\<forall>r \<in> set (collection ?s 1).
           set (script_of ex_handlers ex_event1 ?s r) \<subseteq> dom (regs ?s) \<and>
           r \<notin> set (script_of ex_handlers ex_event1 ?s r)"
    unfolding c using sc d by simp
  have sw: "sweep (script_of ex_handlers ex_event1 ?s) [2, 4, 6] = [2, 6]"
    by (simp add: sc)
  have h: "map (\<lambda>r. (r, handler_of ?s r)) [2, 6] = [(2, 31), (6, 12)]"
    by (simp add: handler_of_def ex_bus3_def)
  from FireEvent_removal_of_others [OF inv key ok] c sw h
  have "\<exists>s'. FireEvent ex_handlers ex_event1 ?s = Some (Inr ([(2, 31), (6, 12)], s'))"
    by auto
  with ex_bus1_run ex_bus2_run ex_bus3_run inv key c sc show ?thesis by simp
qed



text \<open>
  Claim C5 (revocation is idempotent). On a well-formed bus, the first \<open>removeHandler\<close>
  on a registration handle returns and takes the registration out of its collection, the
  other registrations staying in place; calling it again, any number of times, returns and
  leaves the bus as the first call left it; and no \<open>FireEvent\<close> on that bus, or on a bus
  reached from it later, dispatches through the registration.
\<close>

theorem removeHandler_idempotent:
  assumes "bus_inv H s" and "regs s r = Some reg"
  shows "\<exists>s1. removeHandler r s = Inr s1 \<and> bus_inv H s1 \<and>
           (\<forall>p. collection s1 p = filter (\<lambda>x. x \<noteq> r) (collection s p)) \<and>
           (\<forall>k. removeHandler_times k r s1 = Inr s1) \<and>
           (\<forall>s2 e tr s3. later H s1 s2 \<longrightarrow> FireEvent H e s2 = Some (Inr (tr, s3)) \<longrightarrow>
              r \<notin> fst ` set tr)"
proof -
  from removeHandler_collection [OF assms] obtain s1 where
    s1: "removeHandler r s = Inr s1" "bus_inv H s1"
      "\<forall>p. collection s1 p = filter (\<lambda>x. x \<noteq> r) (collection s p)"
      "regs s1 = (regs s)(r \<mapsto> reg\<lparr>registered := False\<rparr>)"
    by blast
  from s1(4) have r1: "regs s1 r = Some (reg\<lparr>registered := False\<rparr>)"
    "\<not> registered (reg\<lparr>registered := False\<rparr>)" by simp_all
  have "removeHandler_times k r s1 = Inr s1" for k
    by (rule removeHandler_times_revoked [OF r1])
  moreover have "r \<notin> fst ` set tr"
    if l: "later H s1 s2" and run: "FireEvent H e s2 = Some (Inr (tr, s3))" for s2 e tr s3
  proof -
    from later_inv [OF l s1(2)] have inv2: "bus_inv H s2" and "extends s1 s2" by simp_all
    with r1 obtain reg2 where "regs s2 r = Some reg2" "\<not> registered reg2"
      unfolding extends_def by fastforce
    from revoked_never_dispatched [OF inv2 this run] show ?thesis .
  qed
  ultimately show ?thesis using s1(1-3) by blast
qed

text \<open>
  Handlers 10 and 11 are registered for type 1 and the first registration is revoked three
  times: the second and third call change nothing, and \<open>FireEvent\<close> reaches handler 11
  only.
\<close>

theorem removeHandler_idempotent_witness:
  "bus_inv ex_handlers (ex_bus2 10 11) \<and>
   regs (ex_bus2 10 11) 2 =
     Some \<lparr>handler = 10, registrations = 1, sender = 0, registered = True\<rparr> \<and>
   collection (ex_bus2 10 11) 1 = [2, 4] \<and>
   (\<exists>s1. removeHandler 2 (ex_bus2 10 11) = Inr s1 \<and> collection s1 1 = [4] \<and>
      removeHandler_times 2 2 s1 = Inr s1 \<and>
      later ex_handlers s1 s1 \<and>
      FireEvent ex_handlers ex_event1 s1 = Some (Inr ([(4, 11)], s1)))"
proof -
  let ?s = "ex_bus2 10 11"
  have inv: "bus_inv ex_handlers ?s"
    by (rule ex_bus2_inv [OF ex_handlers_simps(1) _ ex_handlers_simps(2)]) simp_all
  have r: "regs ?s 2 = Some \<lparr>handler = 10, registrations = 1, sender = 0, registered = True\<rparr>"
    and c: "collection ?s 1 = [2, 4]"
    by (simp_all add: ex_bus2_def collection_def)
  from removeHandler_idempotent [OF inv r] obtain s1 where
    s1: "removeHandler 2 ?s = Inr s1"
      "\<forall>p. collection s1 p = filter (\<lambda>x. x \<noteq> 2) (collection ?s p)"
      "\<forall>k. removeHandler_times k 2 s1 = Inr s1"
    by blast
  from s1(2) c have c1: "collection s1 1 = [4]" by simp
  have "removeHandler 2 ?s = Inr (?s\<lparr>lists := [1 \<mapsto> [(5, 4)]],
      regs := [2 \<mapsto> \<lparr>handler = 10, registrations = 1, sender = 0, registered = False\<rparr>,
               4 \<mapsto> \<lparr>handler = 11, registrations = 1, sender = 0, registered = True\<rparr>]\<rparr>)"
    by (simp add: removeHandler_def ex_bus2_def fun_upd_twist)
  with s1(1) have eq: "s1 = ?s\<lparr>lists := [1 \<mapsto> [(5, 4)]],
      regs := [2 \<mapsto> \<lparr>handler = 10, registrations = 1, sender = 0, registered = False\<rparr>,
               4 \<mapsto> \<lparr>handler = 11, registrations = 1, sender = 0, registered = True\<rparr>]\<rparr>"
    by simp
  have "FireEvent ex_handlers ex_event1 s1 = Some (Inr ([(4, 11)], s1))"
    unfolding eq
    by (simp add: FireEvent_def handlers_index_def ex_bus2_def ex_event1_def list_begin_def
        fire_loop.simps fire_step_def getHandler_def dispatch_def ex_handlers_simps)
  moreover have "later ex_handlers s1 s1" by (rule later_now)
  ultimately show ?thesis using inv r c s1(1) c1 s1(3) by blast
qed

text \<open>
  Claim C6 (dispatch is blind to the sender). \<open>FireEvent\<close> has no parameter for who
  fires, and it never reads the sender field: on the same bus with any other senders in
  the registrations it dispatches through the same registrations to the same handlers, in
  the same order, and leaves the same bus but for those senders. So a handler registered
  with a sender is dispatched to exactly as the same handler registered without one. And
  whatever senders the registrations of a well-formed bus have, \<open>FireEvent\<close> invokes every
  handler registered for the type of the event (when these handlers revoke no registration
  of that collection): it dispatches through all the registrations of the collection, in
  order, and leaves the bus that running their handlers one after the other gives.
\<close>

theorem FireEvent_sender_blind:
  "FireEvent H e (set_senders f s) =
     map_option (map_sum id (apsnd (set_senders f))) (FireEvent H e s) \<and>
   (\<forall>r1 s1 r2 s2. AddHandler_sender T h a slot s = Inr (r1, s1) \<longrightarrow>
      AddHandler T h s = Inr (r2, s2) \<longrightarrow>
      r1 = r2 \<and>
      map_option (map_sum id fst) (FireEvent H e s1) =
      map_option (map_sum id fst) (FireEvent H e s2)) \<and>
   (\<forall>p. bus_inv H s \<longrightarrow> handlers s (etype e) = Some p \<longrightarrow>
      (\<forall>r \<in> set (collection s p).
           set (script_of H e s r) \<subseteq> dom (regs s) \<and>
           set (script_of H e s r) \<inter> set (collection s p) = {}) \<longrightarrow>
      (\<exists>s'. FireEvent H e (set_senders f s) =
            Some (Inr (map (\<lambda>r. (r, handler_of s r)) (collection s p), set_senders f s')) \<and>
            dispatch_all H e (map (handler_of s) (collection s p)) s = Inr s'))"
proof (intro conjI)
  show "FireEvent H e (set_senders f s) =
     map_option (map_sum id (apsnd (set_senders f))) (FireEvent H e s)"
    by (rule FireEvent_set_senders)
next
  show "\<forall>r1 s1 r2 s2. AddHandler_sender T h a slot s = Inr (r1, s1) \<longrightarrow>
      AddHandler T h s = Inr (r2, s2) \<longrightarrow>
      r1 = r2 \<and>
      map_option (map_sum id fst) (FireEvent H e s1) =
      map_option (map_sum id fst) (FireEvent H e s2)"
  proof (intro allI impI)
    fix r1 s1 r2 s2
    assume a: "AddHandler_sender T h a slot s = Inr (r1, s1)" "AddHandler T h s = Inr (r2, s2)"
    let ?z = "\<lambda>r::addr. 0::addr"
    from a AddHandler_body_set_senders [of ?z T h slot s 0]
    have eq: "r1 = r2" "set_senders ?z s1 = set_senders ?z s2"
      by (simp_all add: AddHandler_sender_def AddHandler_def)
    have tr: "map_option (map_sum id fst) (FireEvent H e (set_senders ?z s')) =
              map_option (map_sum id fst) (FireEvent H e s')" for s'
      unfolding FireEvent_set_senders
      by (cases "FireEvent H e s'") (simp_all add: sum.map_comp comp_def id_def)
    from tr [of s1] tr [of s2] eq(2)
    have "map_option (map_sum id fst) (FireEvent H e s1) =
          map_option (map_sum id fst) (FireEvent H e s2)" by simp
    with eq(1) show "r1 = r2 \<and> map_option (map_sum id fst) (FireEvent H e s1) =
        map_option (map_sum id fst) (FireEvent H e s2)" by simp
  qed
next
  show "\<forall>p. bus_inv H s \<longrightarrow> handlers s (etype e) = Some p \<longrightarrow>
      (\<forall>r \<in> set (collection s p).
           set (script_of H e s r) \<subseteq> dom (regs s) \<and>
           set (script_of H e s r) \<inter> set (collection s p) = {}) \<longrightarrow>
      (\<exists>s'. FireEvent H e (set_senders f s) =
            Some (Inr (map (\<lambda>r. (r, handler_of s r)) (collection s p), set_senders f s')) \<and>
            dispatch_all H e (map (handler_of s) (collection s p)) s = Inr s')"
  proof (intro allI impI)
    fix p
    assume inv: "bus_inv H s" and key: "handlers s (etype e) = Some p"
      and quiet: "\<forall>r \<in> set (collection s p).
           set (script_of H e s r) \<subseteq> dom (regs s) \<and>
           set (script_of H e s r) \<inter> set (collection s p) = {}"
    from FireEvent_quiet [OF inv key quiet] obtain s' where
      s': "FireEvent H e s = Some (Inr (map (\<lambda>r. (r, handler_of s r)) (collection s p), s'))"
        "dispatch_all H e (map (handler_of s) (collection s p)) s = Inr s'"
      by blast
    from s'(1) have "FireEvent H e (set_senders f s) =
        Some (Inr (map (\<lambda>r. (r, handler_of s r)) (collection s p), set_senders f s'))"
      by (simp add: FireEvent_set_senders)
    with s'(2) show "\<exists>s'. FireEvent H e (set_senders f s) =
            Some (Inr (map (\<lambda>r. (r, handler_of s r)) (collection s p), set_senders f s')) \<and>
            dispatch_all H e (map (handler_of s) (collection s p)) s = Inr s'"
      by blast
  qed
qed

text \<open>
  Handler 10 registered for type 1 with the sender 100 and registered without a sender:
  \<open>FireEvent\<close> dispatches to it in both buses. And on the bus where the handlers 10 and 12
  were registered for type 1 with a sender and handler 33 without one, an event of type 1
  is dispatched to all three, and handler 33 has run.
\<close>

theorem FireEvent_sender_blind_witness:
  "(\<exists>s1. AddHandler_sender 1 10 100 200 EventBus_init = Inr (2, s1) \<and>
     getSender 2 s1 = Inr 200 \<and>
     AddHandler 1 10 EventBus_init = Inr (2, ex_bus1 10) \<and>
     getSender 2 (ex_bus1 10) = Inr 0 \<and>
     map_option (map_sum id fst) (FireEvent ex_handlers ex_event1 (ex_bus1 10)) =
       Some (Inr [(2, 10)]) \<and>
     map_option (map_sum id fst) (FireEvent ex_handlers ex_event1 s1) = Some (Inr [(2, 10)])) \<and>
   (\<exists>s1 s2 s3. AddHandler_sender 1 10 100 200 EventBus_init = Inr (2, s1) \<and>
      AddHandler 2 20 s1 = Inr (5, s2) \<and> AddHandler 1 33 s2 = Inr (7, s3) \<and>
      AddHandler_sender 1 12 101 201 s3 = Inr (9, ex_bus_mixed ex_senders)) \<and>
   set_senders ex_senders (ex_bus_mixed (\<lambda>r. 0)) = ex_bus_mixed ex_senders \<and>
   bus_inv ex_handlers (ex_bus_mixed (\<lambda>r. 0)) \<and>
   getSender 2 (ex_bus_mixed ex_senders) = Inr 200 \<and>
   getSender 7 (ex_bus_mixed ex_senders) = Inr 0 \<and>
   getSender 9 (ex_bus_mixed ex_senders) = Inr 201 \<and>
   collection (ex_bus_mixed ex_senders) 1 = [2, 7, 9] \<and>
   FireEvent ex_handlers ex_event1 (ex_bus_mixed ex_senders) =
     Some (Inr ([(2, 10), (7, 33), (9, 12)], ex_bus_mixed_fired ex_senders))"
proof -
  obtain s1 where s1: "AddHandler_sender 1 10 100 200 EventBus_init = Inr (2, s1)"
    "getSender 2 s1 = Inr 200"
    using AddHandler_sender_example by blast
  have g: "getSender 2 (ex_bus1 10) = Inr 0" by (simp add: getSender_def ex_bus1_def)
  have f: "map_option (map_sum id fst) (FireEvent ex_handlers ex_event1 (ex_bus1 10)) =
       Some (Inr [(2, 10)])"
    by (simp add: FireEvent_def handlers_index_def ex_bus1_def ex_event1_def list_begin_def
        fire_loop.simps fire_step_def getHandler_def dispatch_def ex_handlers_simps)
  from FireEvent_sender_blind [of ex_handlers ex_event1 "\<lambda>r. 0" EventBus_init 1 10 100 200,
      THEN conjunct2, THEN conjunct1, rule_format, OF s1(1) ex_bus1_run] f
  have "map_option (map_sum id fst) (FireEvent ex_handlers ex_event1 s1) = Some (Inr [(2, 10)])"
    by simp
  with s1 g f ex_bus1_run [of 10] have one:
    "\<exists>s1. AddHandler_sender 1 10 100 200 EventBus_init = Inr (2, s1) \<and>
     getSender 2 s1 = Inr 200 \<and>
     AddHandler 1 10 EventBus_init = Inr (2, ex_bus1 10) \<and>
     getSender 2 (ex_bus1 10) = Inr 0 \<and>
     map_option (map_sum id fst) (FireEvent ex_handlers ex_event1 (ex_bus1 10)) =
       Some (Inr [(2, 10)]) \<and>
     map_option (map_sum id fst) (FireEvent ex_handlers ex_event1 s1) = Some (Inr [(2, 10)])"
    by blast
  have gs: "getSender 2 (ex_bus_mixed ex_senders) = Inr 200"
    "getSender 7 (ex_bus_mixed ex_senders) = Inr 0"
    "getSender 9 (ex_bus_mixed ex_senders) = Inr 201"
    by (simp_all add: getSender_def ex_bus_mixed_def ex_senders_def)
  let ?s = "ex_bus_mixed (\<lambda>r. 0)"
  from FireEvent_sender_blind [of ex_handlers ex_event1 ex_senders ?s,
      THEN conjunct2, THEN conjunct2, THEN spec, THEN mp, THEN mp, THEN mp,
      OF ex_bus_mixed_inv ex_bus_mixed_facts(1) ex_bus_mixed_quiet]
  obtain s' where a: "FireEvent ex_handlers ex_event1 (set_senders ex_senders ?s) =
        Some (Inr (map (\<lambda>r. (r, handler_of ?s r)) (collection ?s 1), set_senders ex_senders s'))"
      "dispatch_all ex_handlers ex_event1 (map (handler_of ?s) (collection ?s 1)) ?s = Inr s'"
    by blast
  from a(2) have "s' = ex_bus_mixed_fired (\<lambda>r. 0)"
    unfolding ex_bus_mixed_facts(2,4) ex_bus_mixed_dispatch_all by simp
  with a(1) have all: "FireEvent ex_handlers ex_event1 (ex_bus_mixed ex_senders) =
     Some (Inr ([(2, 10), (7, 33), (9, 12)], ex_bus_mixed_fired ex_senders))"
    unfolding ex_bus_mixed_facts(2,3) ex_bus_mixed_senders
    by (simp add: ex_bus_mixed_senders)
  from one ex_bus_mixed_sender_run ex_bus_mixed_senders(1) [of ex_senders "\<lambda>r. 0"]
    ex_bus_mixed_inv [of "\<lambda>r. 0"] gs ex_bus_mixed_facts(2) [of ex_senders] all
  show ?thesis by blast
qed

text \<open>
  Claim C7 (the sender is recorded on the registration and \<open>getSender\<close> returns it; with
  no sender it is null). The overload with a sender passes \<open>&sender\<close>, the address of its
  own parameter, to the constructor. Registering handler 10 for type 1 on a new bus with the
  sender 100, the parameter being at address 200, gives a registration whose \<open>getSender\<close>
  returns 200 and not the sender 100 that was supplied. The overload without a sender does
  store the null pointer.
\<close>

theorem getSender_after_AddHandler_sender:
  "(\<exists>s. AddHandler_sender 1 10 100 200 EventBus_init = Inr (2, s) \<and> getSender 2 s = Inr 200) \<and>
   (\<exists>s. AddHandler 1 10 EventBus_init = Inr (2, s) \<and> getSender 2 s = Inr 0)"
  by (simp add: AddHandler_sender_def AddHandler_def AddHandler_body_def handlers_index_def
      EventBus_init_def getSender_def eval_nat_numeral)

text \<open>
  Claim C8 (predicate gating on the descriptor path). While the subscription made by
  \<open>Subscribe(cb, predicate)\<close> for type \<open>T\<close> is live, publishing an event of type \<open>T\<close>
  on which no stored callback throws returns, and it has invoked \<open>cb\<close> through this
  subscription exactly once when the predicate is true of the event and not at all when it
  is false.
\<close>

theorem Publish_predicate_gating:
  assumes "subscribed k T cb predicate s" and "etype e = T"
    and "callbacks_ok e (collectionMap s)"
  shows "\<exists>calls. Publish e s = Inr calls \<and>
           filter (\<lambda>c. fst c = k) calls = (if predicate e then [(k, cb)] else [])"
proof -
  from dispatch_entries_total [of e "entries (collectionMap s)"] assms(3)
  obtain calls where calls: "dispatch_entries e (entries (collectionMap s)) = Inr calls"
    by (auto simp: callbacks_ok_def)
  from assms(1,2) dispatch_entries_subscription [OF _ _ calls, of k cb predicate]
  have "filter (\<lambda>c. fst c = k) calls = (if predicate e then [(k, cb)] else [])"
    by (simp add: subscribed_def)
  with calls show ?thesis by (simp add: Publish_def CollectionMap_Dispatch_def)
qed

text \<open>
  The scenario of the specification: a subscription to type 1 with the predicate "the
  amount is above 100"; publishing the amount 150 invokes the callback once.
\<close>

theorem Publish_predicate_gating_witness:
  "\<exists>s calls. Subscribe 1 7 (\<lambda>e. payload e > 100) EventBus_init = (0, s) \<and>
     subscribed 0 1 7 (\<lambda>e. payload e > 100) s \<and>
     callbacks_ok \<lparr>etype = 1, bases = [], payload = 150\<rparr> (collectionMap s) \<and>
     Publish \<lparr>etype = 1, bases = [], payload = 150\<rparr> s = Inr calls \<and>
     filter (\<lambda>c. fst c = 0) calls = [(0, 7)]"
proof -
  obtain s where s: "Subscribe 1 7 (\<lambda>e. payload e > 100) EventBus_init = (0, s)"
    by (simp add: Subscribe_def Add_def CollectionMap_Add_def EventBus_init_def)
  from Subscribe_subscribed [OF cm_inv_init s]
  have sub: "subscribed 0 1 7 (\<lambda>e. payload e > 100) s" by simp
  from s have ok: "callbacks_ok \<lparr>etype = 1, bases = [], payload = 150\<rparr> (collectionMap s)"
    by (auto simp: Subscribe_def Add_def CollectionMap_Add_def EventBus_init_def callbacks_ok_def
        internalHandler_def internalPredicate_def is_a_def)
  from Publish_predicate_gating [OF sub _ ok] s sub ok show ?thesis by auto
qed

text \<open>
  Claim C9 (\<open>Subscribe\<close> with one argument is \<open>Subscribe\<close> with the always-true
  predicate). Both calls return the same handle and leave the same bus, which is what the
  specification's \<open>Subscribe\<close> with the predicate left out gives; so every later
  sequence of \<open>Publish\<close> calls invokes the same callbacks.
\<close>

theorem Subscribe_handler_always_true:
  "Subscribe_handler T cb s = Subscribe T cb (\<lambda>e. True) s \<and>
   Subscribe_handler T cb s = Subscribe_spec T cb None s \<and>
   (\<forall>es. Publish_all es (snd (Subscribe_handler T cb s)) =
         Publish_all es (snd (Subscribe T cb (\<lambda>e. True) s)))"
proof -
  have 1: "Subscribe_handler T cb s = Subscribe T cb (\<lambda>e. True) s"
    by (simp add: Subscribe_handler_def)
  have 2: "Subscribe_handler T cb s = Subscribe_spec T cb None s"
    unfolding 1 Subscribe_spec_None by (rule Subscribe_spec_Some)
  from 1 2 show ?thesis by simp
qed

text \<open>
  Claim C10 (\<open>FireEvent\<close> for a type that has no entry in \<open>handlers\<close> is not
  state-preserving). Such a call returns without a dispatch and leaves the bus as it was
  but for a new entry for the type of the event, which holds the null pointer: the other
  entries, the lists, the registrations and the collection map are as before. Whenever
  \<open>FireEvent\<close> returns, the collection map of the descriptor subscriptions is as before.
\<close>

theorem FireEvent_unknown_type:
  "(handlers s (etype e) = None \<longrightarrow>
      FireEvent H e s = Some (Inr ([], s\<lparr>handlers := (handlers s)(etype e \<mapsto> 0)\<rparr>))) \<and>
   (\<forall>tr s'. FireEvent H e s = Some (Inr (tr, s')) \<longrightarrow> collectionMap s' = collectionMap s)"
  using FireEvent_None [of s e H] FireEvent_collectionMap [of H e s] by blast

text \<open>
  Handler 10 is registered for type 1 and an event of type 2 is fired: the bus gets a null
  entry for type 2.
\<close>

theorem FireEvent_unknown_type_witness:
  "handlers (ex_bus1 10) (etype ex_event2) = None \<and>
   FireEvent ex_handlers ex_event2 (ex_bus1 10) =
     Some (Inr ([], (ex_bus1 10)\<lparr>handlers := [1 \<mapsto> 1, 2 \<mapsto> 0]\<rparr>)) \<and>
   collectionMap ((ex_bus1 10)\<lparr>handlers := [1 \<mapsto> 1, 2 \<mapsto> 0]\<rparr>) = collectionMap (ex_bus1 10)"
proof -
  have n: "handlers (ex_bus1 10) (etype ex_event2) = None"
    by (simp add: ex_bus1_def ex_event2_def)
  have u: "(ex_bus1 10)\<lparr>handlers := (handlers (ex_bus1 10))(etype ex_event2 \<mapsto> 0)\<rparr> =
           (ex_bus1 10)\<lparr>handlers := [1 \<mapsto> 1, 2 \<mapsto> 0]\<rparr>"
    by (simp add: ex_bus1_def ex_event2_def)
  from FireEvent_unknown_type [of "ex_bus1 10" ex_event2 ex_handlers] n u show ?thesis by simp
qed

end
